theory Spec2Isabelle
  imports Main "HOL-Library.Multiset"
begin

section \<open>Data model (hungry\_monkey\_model.py)\<close>

text \<open>
  \<open>Coordinate\<close> comes from the grid-world library: a named tuple of two integers that
  compares by value, also with a plain tuple (line 124 looks a \<open>Coordinate\<close> up in a list
  of plain tuples).
\<close>

type_synonym Coordinate = "int \<times> int"

text \<open>An action of the library's enumeration: a member name and its \<open>value\<close>, the movement delta.\<close>

datatype Action = Action (action_name: string) (action_value: "int \<times> int")

text \<open>
  \<open>remaining_bananas\<close> holds a Python \<open>set\<close> in the root node (the problem's
  \<open>banana_locations\<close>) and a Python \<open>list\<close> in every node built by \<open>child_node\<close>.
  A set is represented by the list of its elements in the order in which Python iterates it;
  Python's own equality on collections is \<open>py_eq\<close>.
\<close>

datatype bananas = PySet "Coordinate list" | PyList "Coordinate list"

fun elements :: "bananas \<Rightarrow> Coordinate list" where
  "elements (PySet xs) = xs"
| "elements (PyList xs) = xs"

text \<open>\<open>a == b\<close> on collections: a set never equals a list; lists compare in order.\<close>

fun py_eq :: "bananas \<Rightarrow> bananas \<Rightarrow> bool" where
  "py_eq (PySet xs) (PySet ys) = (set xs = set ys)"
| "py_eq (PyList xs) (PyList ys) = (xs = ys)"
| "py_eq (PySet xs) (PyList ys) = False"
| "py_eq (PyList xs) (PySet ys) = False"

text \<open>\<open>x in b\<close>, \<open>len(b)\<close> and \<open>frozenset(b)\<close>.\<close>

definition py_in :: "Coordinate \<Rightarrow> bananas \<Rightarrow> bool" where
  "py_in c b = (c \<in> set (elements b))"

definition py_len :: "bananas \<Rightarrow> nat" where
  "py_len b = length (elements b)"

definition frozenset :: "bananas \<Rightarrow> Coordinate set" where
  "frozenset b = set (elements b)"

record HungryMonkeyState =
  current_location :: Coordinate
  remaining_bananas :: bananas

text \<open>A Python number as the searches use it: an integer or \<open>math.inf\<close>.\<close>

datatype number = Finite int | Infinity

fun num_lt :: "int \<Rightarrow> number \<Rightarrow> bool" where
  "num_lt c Infinity = True"
| "num_lt c (Finite s) = (c < s)"

record HungryMonkeyResult =
  sequence_actions :: "Action list"
  total_reward :: number

datatype HungryMonkeyNode =
  Node (state: HungryMonkeyState) (path_cost: int) (previous_action: "Action option")
       (parent: "HungryMonkeyNode option") (heuristic_cost: int)

text \<open>\<open>HungryMonkeyNode(current_location, remaining_bananas)\<close> with the default arguments.\<close>

definition new_node :: "Coordinate \<Rightarrow> bananas \<Rightarrow> HungryMonkeyNode" where
  "new_node loc b =
     Node \<lparr>current_location = (fst loc, snd loc), remaining_bananas = b\<rparr> 0 None None 0"

text \<open>
  \<open>__hash__\<close>: the built-in \<open>hash\<close> (the parameter \<open>h\<close>) of the triple
  \<open>(x, y, frozenset(remaining_bananas))\<close>.
\<close>

definition node_hash ::
  "(int \<times> int \<times> Coordinate set \<Rightarrow> 'h) \<Rightarrow> HungryMonkeyNode \<Rightarrow> 'h" where
  "node_hash h n =
     h (fst (current_location (state n)), snd (current_location (state n)),
        frozenset (remaining_bananas (state n)))"

text \<open>\<open>__eq__\<close>.\<close>

definition node_eq :: "HungryMonkeyNode \<Rightarrow> HungryMonkeyNode \<Rightarrow> bool" where
  "node_eq a b =
     (fst (current_location (state a)) = fst (current_location (state b)) \<and>
      snd (current_location (state a)) = snd (current_location (state b)) \<and>
      py_eq (remaining_bananas (state a)) (remaining_bananas (state b)))"

text \<open>\<open>__lt__\<close>.\<close>

definition node_lt :: "HungryMonkeyNode \<Rightarrow> HungryMonkeyNode \<Rightarrow> bool" where
  "node_lt a b =
     (if path_cost a + heuristic_cost a = path_cost b + heuristic_cost b
      then py_len (remaining_bananas (state a)) < py_len (remaining_bananas (state b))
      else path_cost a + heuristic_cost a < path_cost b + heuristic_cost b)"

record HungryMonkeyProblem =
  map_size :: Coordinate
  initial_location :: Coordinate
  block_locations :: "Coordinate list"
  banana_locations :: "Coordinate list"
  step_cost :: int
  banana_reward :: int
  possible_actions :: "Action list"
  heuristic_func :: "HungryMonkeyNode \<Rightarrow> int"

definition is_inside_grid_map :: "HungryMonkeyProblem \<Rightarrow> Coordinate \<Rightarrow> bool" where
  "is_inside_grid_map p location =
     ((0 \<le> fst location \<and> fst location < fst (map_size p)) \<and>
      (0 \<le> snd location \<and> snd location < snd (map_size p)))"

definition move :: "Coordinate \<Rightarrow> Action \<Rightarrow> Coordinate" where
  "move loc a = (fst loc + fst (action_value a), snd loc + snd (action_value a))"

definition available_actions_for :: "HungryMonkeyProblem \<Rightarrow> HungryMonkeyState \<Rightarrow> Action list" where
  "available_actions_for p s =
     filter (\<lambda>a. is_inside_grid_map p (move (current_location s) a) \<and>
                  move (current_location s) a \<notin> set (block_locations p))
            (possible_actions p)"

text \<open>
  \<open>successor\<close> returns a \<open>HungryMonkeyState\<close> for a legal action and a plain tuple of the
  same two components otherwise; a plain tuple has no attribute \<open>current_location\<close>.
\<close>

datatype successor_value = State HungryMonkeyState | Tuple Coordinate bananas

definition successor :: "HungryMonkeyProblem \<Rightarrow> HungryMonkeyState \<Rightarrow> Action \<Rightarrow> successor_value" where
  "successor p s a =
     (if a \<notin> set (available_actions_for p s)
      then Tuple (current_location s) (remaining_bananas s)
      else let new_location = move (current_location s) a
           in State \<lparr>current_location = new_location,
                     remaining_bananas =
                       PyList (filter (\<lambda>banana. \<not> (fst banana = fst new_location \<and>
                                                     snd banana = snd new_location))
                                      (elements (remaining_bananas s)))\<rparr>)"

fun successor_bananas :: "successor_value \<Rightarrow> bananas" where
  "successor_bananas (State s) = remaining_bananas s"
| "successor_bananas (Tuple loc b) = b"

definition is_goal_state :: "HungryMonkeyState \<Rightarrow> bool" where
  "is_goal_state s = (elements (remaining_bananas s) = [])"

datatype error = AttributeError | UnboundLocalError

definition child_node ::
  "HungryMonkeyProblem \<Rightarrow> HungryMonkeyNode \<Rightarrow> Action \<Rightarrow> error + HungryMonkeyNode" where
  "child_node p node a =
     (case successor p (state node) a of
        Tuple loc b \<Rightarrow> Inl AttributeError
      | State next_state \<Rightarrow>
          Inr (Node \<lparr>current_location = (fst (current_location next_state),
                                          snd (current_location next_state)),
                     remaining_bananas = remaining_bananas next_state\<rparr>
                    (path_cost node +
                       (if \<not> py_in (current_location next_state) (remaining_bananas (state node))
                        then step_cost p else step_cost p + banana_reward p))
                    (Some a) (Some node)
                    (heuristic_func p
                       (new_node (current_location next_state) (remaining_bananas next_state)))))"

text \<open>
  \<open>unwrap_solution\<close>: the loop walks the parent chain while \<open>previous_action\<close> is set; reading
  \<open>previous_action\<close> of \<open>None\<close> raises \<open>AttributeError\<close>.
\<close>

fun unwrap_loop :: "HungryMonkeyNode option \<Rightarrow> Action list \<Rightarrow> error + Action list" where
  "unwrap_loop None result_actions = Inl AttributeError"
| "unwrap_loop (Some (Node s c None par h)) result_actions = Inr result_actions"
| "unwrap_loop (Some (Node s c (Some a) par h)) result_actions =
     unwrap_loop par (result_actions @ [a])"

definition unwrap_solution :: "HungryMonkeyNode option \<Rightarrow> error + Action list" where
  "unwrap_solution node =
     (case unwrap_loop node [] of Inl e \<Rightarrow> Inl e | Inr acts \<Rightarrow> Inr (rev acts))"

definition initial_node :: "HungryMonkeyProblem \<Rightarrow> HungryMonkeyNode" where
  "initial_node p = new_node (initial_location p) (PySet (banana_locations p))"

text \<open>
  The list comprehension \<open>[problem.child_node(parent, action) for action in
  problem.available_actions_for(parent.state)]\<close> of the three searches.
\<close>

fun child_nodes_of ::
  "HungryMonkeyProblem \<Rightarrow> HungryMonkeyNode \<Rightarrow> Action list \<Rightarrow> error + HungryMonkeyNode list" where
  "child_nodes_of p node [] = Inr []"
| "child_nodes_of p node (a # as) =
     (case child_node p node a of
        Inl e \<Rightarrow> Inl e
      | Inr c \<Rightarrow> (case child_nodes_of p node as of Inl e \<Rightarrow> Inl e | Inr cs \<Rightarrow> Inr (c # cs)))"

definition child_nodes :: "HungryMonkeyProblem \<Rightarrow> HungryMonkeyNode \<Rightarrow> error + HungryMonkeyNode list" where
  "child_nodes p node = child_nodes_of p node (available_actions_for p (state node))"

text \<open>
  Replaying an action sequence with \<open>successor\<close>: each result is the next call's state; a
  plain tuple cannot be one (\<open>available_actions_for\<close> reads \<open>state.current_location\<close>).
\<close>

fun replay ::
  "HungryMonkeyProblem \<Rightarrow> successor_value \<Rightarrow> Action list \<Rightarrow> error + successor_value" where
  "replay p v [] = Inr v"
| "replay p (State s) (a # as) = replay p (successor p s a) as"
| "replay p (Tuple loc b) (a # as) = Inl AttributeError"

section \<open>Collections of nodes\<close>

text \<open>
  Membership of a node in a Python list, set or dictionary goes through \<open>__eq__\<close> (for a
  set or dictionary after the hashes agree, which \<open>__eq__\<close> implies). A set of nodes is the
  list of its members, a dictionary the list of its items, both in insertion order.
\<close>

definition node_in :: "HungryMonkeyNode \<Rightarrow> HungryMonkeyNode list \<Rightarrow> bool" where
  "node_in x nodes = list_ex (\<lambda>k. node_eq k x) nodes"

definition set_add :: "HungryMonkeyNode list \<Rightarrow> HungryMonkeyNode \<Rightarrow> HungryMonkeyNode list" where
  "set_add nodes x = (if node_in x nodes then nodes else nodes @ [x])"

type_synonym reached_dict = "(HungryMonkeyNode \<times> int) list"

fun dict_get :: "reached_dict \<Rightarrow> HungryMonkeyNode \<Rightarrow> int option" where
  "dict_get [] k = None"
| "dict_get ((k', v') # d) k = (if node_eq k' k then Some v' else dict_get d k)"

fun dict_set :: "reached_dict \<Rightarrow> HungryMonkeyNode \<Rightarrow> int \<Rightarrow> reached_dict" where
  "dict_set [] k v = [(k, v)]"
| "dict_set ((k', v') # d) k v =
     (if node_eq k' k then (k', v) # d else (k', v') # dict_set d k v)"

section \<open>The priority queue (\<open>queue.PriorityQueue\<close> over \<open>heapq\<close>)\<close>

text \<open>
  \<open>put\<close> is \<open>heapq.heappush\<close> and \<open>get\<close> is \<open>heapq.heappop\<close> on a list used as an
  array-based binary heap, compared with \<open>__lt__\<close> (the parameter \<open>lt\<close>).
\<close>

function siftdown_loop ::
  "('a \<Rightarrow> 'a \<Rightarrow> bool) \<Rightarrow> 'a list \<Rightarrow> nat \<Rightarrow> nat \<Rightarrow> 'a \<Rightarrow> 'a list" where
  "siftdown_loop lt heap startpos pos newitem =
     (if pos > startpos
      then (let parentpos = (pos - 1) div 2;
                parent = heap ! parentpos
            in if lt newitem parent
               then siftdown_loop lt (heap[pos := parent]) startpos parentpos newitem
               else heap[pos := newitem])
      else heap[pos := newitem])"
  by pat_completeness auto
termination
  by (relation "measure (\<lambda>(lt, heap, startpos, pos, newitem). pos)") auto

declare siftdown_loop.simps [simp del]

definition siftdown :: "('a \<Rightarrow> 'a \<Rightarrow> bool) \<Rightarrow> 'a list \<Rightarrow> nat \<Rightarrow> nat \<Rightarrow> 'a list" where
  "siftdown lt heap startpos pos = siftdown_loop lt heap startpos pos (heap ! pos)"

function siftup_loop ::
  "('a \<Rightarrow> 'a \<Rightarrow> bool) \<Rightarrow> 'a list \<Rightarrow> nat \<Rightarrow> nat \<Rightarrow> 'a list \<times> nat" where
  "siftup_loop lt heap endpos pos =
     (if 2 * pos + 1 < endpos
      then (let childpos = 2 * pos + 1;
                rightpos = childpos + 1;
                childpos = (if rightpos < endpos \<and> \<not> lt (heap ! childpos) (heap ! rightpos)
                            then rightpos else childpos)
            in siftup_loop lt (heap[pos := heap ! childpos]) endpos childpos)
      else (heap, pos))"
  by pat_completeness auto
termination
  by (relation "measure (\<lambda>(lt, heap, endpos, pos). endpos - pos)") (auto simp: Let_def)

declare siftup_loop.simps [simp del]

definition siftup :: "('a \<Rightarrow> 'a \<Rightarrow> bool) \<Rightarrow> 'a list \<Rightarrow> nat \<Rightarrow> 'a list" where
  "siftup lt heap pos =
     (let newitem = heap ! pos;
          r = siftup_loop lt heap (length heap) pos
      in siftdown lt ((fst r)[snd r := newitem]) pos (snd r))"

definition heappush :: "('a \<Rightarrow> 'a \<Rightarrow> bool) \<Rightarrow> 'a list \<Rightarrow> 'a \<Rightarrow> 'a list" where
  "heappush lt heap item = siftdown lt (heap @ [item]) 0 (length heap)"

text \<open>\<open>heappop\<close> returns the smallest item and the remaining heap; the searches call it on a
  non-empty queue only.\<close>

fun heappop :: "('a \<Rightarrow> 'a \<Rightarrow> bool) \<Rightarrow> 'a list \<Rightarrow> ('a \<times> 'a list) option" where
  "heappop lt [] = None"
| "heappop lt (x # xs) =
     (let lastelt = last (x # xs);
          heap = butlast (x # xs)
      in if heap \<noteq> [] then Some (heap ! 0, siftup lt (heap[0 := lastelt]) 0)
         else Some (lastelt, heap))"

section \<open>Uniform-cost search (hungry\_monkey\_UCS.py)\<close>

record search_state =
  frontier :: "HungryMonkeyNode list"
  reached :: reached_dict
  solution :: number
  solution_node :: "HungryMonkeyNode option"
  counter :: nat

text \<open>The body of \<open>for child in succesors\<close> (lines 41 to 47).\<close>

definition ucs_visit :: "search_state \<Rightarrow> HungryMonkeyNode \<Rightarrow> search_state" where
  "ucs_visit s child =
     (let s = s\<lparr>counter := counter s + 1\<rparr>
      in if \<not> node_in child (map fst (reached s)) \<or>
            (case dict_get (reached s) child of None \<Rightarrow> False | Some v \<Rightarrow> path_cost child < v)
         then (let s = s\<lparr>reached := dict_set (reached s) child (path_cost child),
                          frontier := heappush node_lt (frontier s) child\<rparr>
               in if is_goal_state (state child) \<and> num_lt (path_cost child) (solution s)
                  then s\<lparr>solution := Finite (path_cost child), solution_node := Some child\<rparr>
                  else s)
         else s)"

text \<open>
  The \<open>while\<close> loop (line 38): it ends when the frontier is empty or the node taken from it
  does not cost less than the solution found so far. A run that never leaves the loop has the
  value \<open>None\<close>.
\<close>

partial_function (option) ucs_while ::
  "HungryMonkeyProblem \<Rightarrow> search_state \<Rightarrow> (error + search_state) option" where
  "ucs_while p s =
     (case heappop node_lt (frontier s) of
        None \<Rightarrow> Some (Inr s)
      | Some got \<Rightarrow>
          (if \<not> num_lt (path_cost (fst got)) (solution s)
           then Some (Inr (s\<lparr>frontier := snd got\<rparr>))
           else (case child_nodes p (fst got) of
                   Inl e \<Rightarrow> Some (Inl e)
                 | Inr succesors \<Rightarrow>
                     ucs_while p (foldl ucs_visit (s\<lparr>frontier := snd got\<rparr>) succesors))))"

declare ucs_while.simps [code]

text \<open>The value returned after the loop (line 48), shared with the heuristic search.\<close>

definition search_result ::
  "(error + search_state) option \<Rightarrow> (error + HungryMonkeyResult \<times> nat) option" where
  "search_result r =
     (case r of
        None \<Rightarrow> None
      | Some (Inl e) \<Rightarrow> Some (Inl e)
      | Some (Inr s) \<Rightarrow>
          (case unwrap_solution (solution_node s) of
             Inl e \<Rightarrow> Some (Inl e)
           | Inr acts \<Rightarrow>
               Some (Inr (\<lparr>sequence_actions = acts, total_reward = solution s\<rparr>, counter s))))"

text \<open>
  \<open>uniform_cost_search\<close>, from the player's \<open>counter\<close> to the result and the new
  \<open>counter\<close>.
\<close>

definition uniform_cost_search ::
  "HungryMonkeyProblem \<Rightarrow> nat \<Rightarrow> (error + HungryMonkeyResult \<times> nat) option" where
  "uniform_cost_search p cnt =
     (if is_goal_state (state (initial_node p))
      then Some (Inr (\<lparr>sequence_actions = [], total_reward = Finite 0\<rparr>, cnt + 1))
      else search_result
             (ucs_while p \<lparr>frontier = heappush node_lt [] (initial_node p), reached = [],
                           solution = Infinity, solution_node = None, counter = cnt + 1\<rparr>))"

section \<open>Heuristic search (hungry\_monkey\_AStar.py)\<close>

definition astar_visit :: "search_state \<Rightarrow> HungryMonkeyNode \<Rightarrow> search_state" where
  "astar_visit s child =
     (let child_total_cost = path_cost child + heuristic_cost child
      in if \<not> node_in child (map fst (reached s)) \<or>
            (case dict_get (reached s) child of None \<Rightarrow> False | Some v \<Rightarrow> child_total_cost < v)
         then (let s = s\<lparr>reached := dict_set (reached s) child child_total_cost,
                          frontier := heappush node_lt (frontier s) child\<rparr>
               in if is_goal_state (state child) \<and> num_lt child_total_cost (solution s)
                  then s\<lparr>solution := Finite child_total_cost, solution_node := Some child\<rparr>
                  else s)
         else s)"

partial_function (option) astar_while ::
  "HungryMonkeyProblem \<Rightarrow> search_state \<Rightarrow> (error + search_state) option" where
  "astar_while p s =
     (case heappop node_lt (frontier s) of
        None \<Rightarrow> Some (Inr s)
      | Some got \<Rightarrow>
          (if \<not> num_lt (path_cost (fst got) + heuristic_cost (fst got)) (solution s)
           then Some (Inr (s\<lparr>frontier := snd got\<rparr>))
           else (case child_nodes p (fst got) of
                   Inl e \<Rightarrow> Some (Inl e)
                 | Inr successors \<Rightarrow>
                     astar_while p
                       (foldl astar_visit
                          (s\<lparr>frontier := snd got, counter := counter s + 1\<rparr>) successors))))"

declare astar_while.simps [code]

definition astar_search ::
  "HungryMonkeyProblem \<Rightarrow> nat \<Rightarrow> (error + HungryMonkeyResult \<times> nat) option" where
  "astar_search p cnt =
     (if is_goal_state (state (initial_node p))
      then Some (Inr (\<lparr>sequence_actions = [], total_reward = Finite 0\<rparr>, cnt + 1))
      else search_result
             (astar_while p \<lparr>frontier = heappush node_lt [] (initial_node p), reached = [],
                             solution = Infinity, solution_node = None, counter = cnt\<rparr>))"

text \<open>The heuristic that \<open>AStarPlayer.start_episode\<close> passes to the problem.\<close>

definition manhattan_distance_between :: "Coordinate \<Rightarrow> Coordinate \<Rightarrow> int" where
  "manhattan_distance_between start destination =
     \<bar>fst destination - fst start\<bar> + \<bar>snd destination - snd start\<bar>"

definition heuristic_func_astar :: "HungryMonkeyNode \<Rightarrow> int" where
  "heuristic_func_astar node =
     (let goal_distances =
            map (manhattan_distance_between (current_location (state node)))
                (elements (remaining_bananas (state node)))
      in if goal_distances \<noteq> [] then Min (set goal_distances) else 0)"

section \<open>Iterative deepening (hungry\_monkey\_IDS.py)\<close>

text \<open>A result of the depth-limited search: a \<open>HungryMonkeyResult\<close>, the cutoff flag
  \<open>[-1]\<close> or the no-solution flag \<open>[-2]\<close>.\<close>

datatype dls_result = Solution HungryMonkeyResult | Cutoff | NoSolution

text \<open>The lines the search prints: the banner of \<open>depth_limited_search\<close> (line 47) and
  the count of \<open>iterative_deepening_search\<close> (line 34).\<close>

datatype printed_line = LimitDepth nat | NodesExplored nat

record IDPlayer =
  id_counter :: nat
  total_counter :: nat
  printed :: "printed_line list"

text \<open>The loop \<open>for child in clean_childs\<close> (lines 73 to 84); \<open>rec\<close> is the recursive
  call of line 74.\<close>

fun dls_for ::
  "(HungryMonkeyNode \<Rightarrow> IDPlayer \<Rightarrow> (error + dls_result) \<times> IDPlayer) \<Rightarrow>
   HungryMonkeyNode list \<Rightarrow> bool \<Rightarrow> IDPlayer \<Rightarrow> (error + dls_result) \<times> IDPlayer" where
  "dls_for rec [] cutoff_occured pl = (Inr (if cutoff_occured then Cutoff else NoSolution), pl)"
| "dls_for rec (child # rest) cutoff_occured pl =
     (case rec child pl of
        (Inl e, pl') \<Rightarrow> (Inl e, pl')
      | (Inr Cutoff, pl') \<Rightarrow> dls_for rec rest True pl'
      | (Inr NoSolution, pl') \<Rightarrow> dls_for rec rest cutoff_occured pl'
      | (Inr (Solution r), pl') \<Rightarrow> (Inr (Solution r), pl'))"

definition clean_childs ::
  "HungryMonkeyNode list \<Rightarrow> HungryMonkeyNode list \<Rightarrow> HungryMonkeyNode list" where
  "clean_childs childs explored_nodes = filter (\<lambda>child. \<not> node_in child explored_nodes) childs"

fun recursive_dls ::
  "HungryMonkeyNode \<Rightarrow> HungryMonkeyProblem \<Rightarrow> nat \<Rightarrow> HungryMonkeyNode list \<Rightarrow> IDPlayer \<Rightarrow>
   (error + dls_result) \<times> IDPlayer" where
  "recursive_dls node p limit explored_nodes pl =
     (let pl = pl\<lparr>id_counter := id_counter pl + 1, total_counter := total_counter pl + 1\<rparr>
      in if is_goal_state (state node)
         then (case unwrap_solution (Some node) of
                 Inl e \<Rightarrow> (Inl e, pl)
               | Inr acts \<Rightarrow>
                   (Inr (Solution \<lparr>sequence_actions = acts,
                                    total_reward = Finite (path_cost node)\<rparr>), pl))
         else (case limit of
                 0 \<Rightarrow> (Inr Cutoff, pl)
               | Suc l \<Rightarrow>
                   (case child_nodes p node of
                      Inl e \<Rightarrow> (Inl e, pl)
                    | Inr childs \<Rightarrow>
                        dls_for (\<lambda>child. recursive_dls child p l (set_add explored_nodes node))
                                (clean_childs childs explored_nodes) False pl)))"

declare recursive_dls.simps [simp del]

definition depth_limited_search ::
  "HungryMonkeyProblem \<Rightarrow> nat \<Rightarrow> IDPlayer \<Rightarrow> (error + dls_result) \<times> IDPlayer" where
  "depth_limited_search p depth pl =
     recursive_dls (initial_node p) p depth (set_add [] (initial_node p))
                   (pl\<lparr>printed := printed pl @ [LimitDepth depth]\<rparr>)"

text \<open>
  The \<open>for ... else\<close> of \<open>iterative_deepening_search\<close>: \<open>result\<close> is unbound until the
  first pass assigns it, so the \<open>else\<close> branch of an empty range raises
  \<open>UnboundLocalError\<close>.
\<close>

fun ids_for ::
  "HungryMonkeyProblem \<Rightarrow> nat list \<Rightarrow> dls_result option \<Rightarrow> IDPlayer \<Rightarrow>
   (error + dls_result) \<times> IDPlayer" where
  "ids_for p [] result pl =
     (case result of None \<Rightarrow> (Inl UnboundLocalError, pl) | Some r \<Rightarrow> (Inr r, pl))"
| "ids_for p (depth # depths) result pl =
     (case depth_limited_search p depth pl of
        (Inl e, pl') \<Rightarrow> (Inl e, pl')
      | (Inr r, pl') \<Rightarrow>
          (let pl' = pl'\<lparr>printed := printed pl' @ [NodesExplored (id_counter pl')],
                           id_counter := 0\<rparr>
           in if r \<noteq> Cutoff then (Inr r, pl') else ids_for p depths (Some r) pl'))"

text \<open>\<open>range(n)\<close> for an integer \<open>n\<close>.\<close>

definition range :: "int \<Rightarrow> nat list" where
  "range n = [0 ..< nat n]"

definition free_cells :: "HungryMonkeyProblem \<Rightarrow> int" where
  "free_cells p = fst (map_size p) * snd (map_size p) - int (length (block_locations p))"

definition iterative_deepening_search ::
  "HungryMonkeyProblem \<Rightarrow> IDPlayer \<Rightarrow> (error + dls_result) \<times> IDPlayer" where
  "iterative_deepening_search p pl = ids_for p (range (free_cells p)) None pl"

section \<open>The problems the three players build (\<open>start_episode\<close>)\<close>

text \<open>
  What \<open>HungryMonkeyProblem.__init__\<close> reads from the world: its size, the location of the
  eater, the set of food locations (in its iteration order) and the blocks.
\<close>

record EaterWorld =
  world_size :: Coordinate
  eater_location :: Coordinate
  food_locations :: "Coordinate list"
  blocks :: "Coordinate list"

definition HungryMonkeyProblem_init ::
  "EaterWorld \<Rightarrow> Action list \<Rightarrow> int \<Rightarrow> int \<Rightarrow> (HungryMonkeyNode \<Rightarrow> int) \<Rightarrow> HungryMonkeyProblem" where
  "HungryMonkeyProblem_init world actions sc br hf =
     \<lparr>map_size = world_size world, initial_location = eater_location world,
      block_locations = blocks world, banana_locations = food_locations world,
      step_cost = sc, banana_reward = br, possible_actions = actions, heuristic_func = hf\<rparr>"

text \<open>The defaults of \<open>__init__\<close>: \<open>step_cost = -1\<close>, \<open>banana_reward = 10\<close>,
  \<open>heuristic_func = lambda x: 0\<close>.\<close>

definition UCPlayer_problem :: "EaterWorld \<Rightarrow> Action list \<Rightarrow> HungryMonkeyProblem" where
  "UCPlayer_problem world actions = HungryMonkeyProblem_init world actions 1 (- 10) (\<lambda>x. 0)"

definition AStarPlayer_problem :: "EaterWorld \<Rightarrow> Action list \<Rightarrow> HungryMonkeyProblem" where
  "AStarPlayer_problem world actions =
     HungryMonkeyProblem_init world actions 1 (- 10) heuristic_func_astar"

definition IDPlayer_problem :: "EaterWorld \<Rightarrow> Action list \<Rightarrow> HungryMonkeyProblem" where
  "IDPlayer_problem world actions = HungryMonkeyProblem_init world actions (- 1) 10 (\<lambda>x. 0)"

section \<open>Concrete worlds\<close>

definition East :: Action where
  "East = Action ''East'' (1, 0)"

definition West :: Action where
  "West = Action ''West'' (- 1, 0)"

text \<open>A grid of width 4 and height 1, the eater at \<open>x = 0\<close>, one banana at \<open>x = 3\<close>.\<close>

definition line_world :: EaterWorld where
  "line_world =
     \<lparr>world_size = (4, 1), eater_location = (0, 0), food_locations = [(3, 0)], blocks = []\<rparr>"

text \<open>The same grid with a block at \<open>x = 2\<close>: the banana cannot be reached.\<close>

definition blocked_world :: EaterWorld where
  "blocked_world =
     \<lparr>world_size = (4, 1), eater_location = (0, 0), food_locations = [(3, 0)],
      blocks = [(2, 0)]\<rparr>"

definition new_player :: IDPlayer where
  "new_player = \<lparr>id_counter = 0, total_counter = 0, printed = []\<rparr>"

text \<open>A grid of width 4 and height 1 without bananas: the initial state is a goal state.\<close>

definition empty_world :: EaterWorld where
  "empty_world =
     \<lparr>world_size = (4, 1), eater_location = (0, 0), food_locations = [], blocks = []\<rparr>"

text \<open>
  The inputs the searches are written for: the blocks are distinct cells of the grid, and
  the eater starts on a cell of the grid that is not a block.
\<close>

definition valid_grid :: "HungryMonkeyProblem \<Rightarrow> bool" where
  "valid_grid p =
     (distinct (block_locations p) \<and>
      list_all (is_inside_grid_map p) (block_locations p) \<and>
      is_inside_grid_map p (initial_location p) \<and>
      initial_location p \<notin> set (block_locations p))"

text \<open>What holds of every state of the blocked world: the eater is at \<open>x = 0\<close> or
  \<open>x = 1\<close> and the banana is still there.\<close>

fun blocked_inv :: "successor_value \<Rightarrow> bool" where
  "blocked_inv (State s) =
     (current_location s \<in> {(0, 0), (1, 0)} \<and> elements (remaining_bananas s) = [(3, 0)])"
| "blocked_inv (Tuple loc b) = (elements b = [(3, 0)])"

section \<open>Nodes that a search can build\<close>

text \<open>The nodes reached from the root by \<open>child_node\<close> along available actions.\<close>

inductive derived :: "HungryMonkeyProblem \<Rightarrow> HungryMonkeyNode \<Rightarrow> bool" for p where
  root: "derived p (initial_node p)"
| child: "derived p par \<Longrightarrow> a \<in> set (available_actions_for p (state par)) \<Longrightarrow>
          child_node p par a = Inr c \<Longrightarrow> derived p c"

text \<open>The actions stored along the parent chain of a node, first action first.\<close>

fun path_actions :: "HungryMonkeyNode \<Rightarrow> Action list" where
  "path_actions (Node s c None par h) = []"
| "path_actions (Node s c (Some a) None h) = [a]"
| "path_actions (Node s c (Some a) (Some par) h) = path_actions par @ [a]"

text \<open>A result of the depth-limited search is sound when it is not an exception and, if it is
  a solution, it is read off a goal node built from the root.\<close>

fun sound_result :: "HungryMonkeyProblem \<Rightarrow> error + dls_result \<Rightarrow> bool" where
  "sound_result p (Inl e) = False"
| "sound_result p (Inr (Solution res)) =
     (\<exists>n. derived p n \<and> is_goal_state (state n) \<and> sequence_actions res = path_actions n \<and>
          total_reward res = Finite (path_cost n))"
| "sound_result p (Inr Cutoff) = True"
| "sound_result p (Inr NoSolution) = True"

text \<open>The depth limits among the printed lines.\<close>

fun limit_depths :: "printed_line list \<Rightarrow> nat list" where
  "limit_depths [] = []"
| "limit_depths (LimitDepth d # ls) = d # limit_depths ls"
| "limit_depths (NodesExplored n # ls) = limit_depths ls"

text \<open>What the loop of a cost-ordered search keeps true: the frontier holds nodes built from
  the root, and so is the solution node, which is a goal node.\<close>

definition search_inv :: "HungryMonkeyProblem \<Rightarrow> search_state \<Rightarrow> bool" where
  "search_inv p s =
     ((\<forall>n \<in> set (frontier s). derived p n) \<and>
      (\<forall>n. solution_node s = Some n \<longrightarrow> derived p n \<and> is_goal_state (state n)))"

text \<open>
  The heap invariant of \<open>heapq\<close>: no item is smaller than its parent, the item at index
  \<open>(i - 1) // 2\<close>. The comparison must order the items as \<open>__lt__\<close> orders nodes: it is
  asymmetric and "not smaller" is transitive.
\<close>

definition heap_ok :: "('a \<Rightarrow> 'a \<Rightarrow> bool) \<Rightarrow> 'a list \<Rightarrow> bool" where
  "heap_ok lt heap = (\<forall>i \<in> {1 ..< length heap}. \<not> lt (heap ! i) (heap ! ((i - 1) div 2)))"

definition weak_order :: "('a \<Rightarrow> 'a \<Rightarrow> bool) \<Rightarrow> bool" where
  "weak_order lt =
     ((\<forall>a b. lt a b \<longrightarrow> \<not> lt b a) \<and> (\<forall>a b c. \<not> lt b a \<longrightarrow> \<not> lt c b \<longrightarrow> \<not> lt c a))"

text \<open>
  A heap with a hole at \<open>pos\<close>: the items away from the hole are in order, and the children of
  the hole are not smaller than its parent, so that either may fill it.
\<close>

definition hole_ok :: "('a \<Rightarrow> 'a \<Rightarrow> bool) \<Rightarrow> 'a list \<Rightarrow> nat \<Rightarrow> bool" where
  "hole_ok lt heap pos =
     (\<forall>i \<in> {1 ..< length heap}.
        (i \<noteq> pos \<and> (i - 1) div 2 \<noteq> pos \<longrightarrow> \<not> lt (heap ! i) (heap ! ((i - 1) div 2))) \<and>
        ((i - 1) div 2 = pos \<and> 0 < pos \<longrightarrow> \<not> lt (heap ! i) (heap ! ((pos - 1) div 2))))"

text \<open>The problem of the 4-by-1 grid with the defaults of \<open>__init__\<close>: step cost -1 and
  banana reward 10.\<close>

definition line_problem :: HungryMonkeyProblem where
  "line_problem = HungryMonkeyProblem_init line_world [East, West] (- 1) 10 (\<lambda>x. 0)"

text \<open>
  The nodes of that problem: a node on the way has the banana left and stands at \<open>x = 0\<close>,
  \<open>1\<close> or \<open>2\<close>; a goal node has no banana left. Neither has a heuristic cost.
\<close>

definition mobile :: "HungryMonkeyNode \<Rightarrow> bool" where
  "mobile n =
     (current_location (state n) \<in> {(0, 0), (1, 0), (2, 0)} \<and>
      elements (remaining_bananas (state n)) = [(3, 0)] \<and> heuristic_cost n = 0)"

definition goal_node :: "HungryMonkeyNode \<Rightarrow> bool" where
  "goal_node n = (is_goal_state (state n) \<and> heuristic_cost n = 0)"

text \<open>
  What uniform-cost search keeps true on that problem, for a bound \<open>m\<close>: the frontier is a
  heap, its goal nodes do not cost less than the solution, and \<open>m\<close> is below the solution
  and not above any cost recorded in \<open>reached\<close>.
\<close>

definition line_inv :: "int \<Rightarrow> search_state \<Rightarrow> bool" where
  "line_inv m s =
     (heap_ok node_lt (frontier s) \<and>
      (\<forall>n \<in> set (frontier s). mobile n \<or> (goal_node n \<and> \<not> num_lt (path_cost n) (solution s))) \<and>
      num_lt m (solution s) \<and>
      (\<forall>kv \<in> set (reached s). m \<le> snd kv))"

text \<open>The frontier holds a node on the way whose cost is such a bound.\<close>

definition diverging :: "search_state \<Rightarrow> bool" where
  "diverging s = (\<exists>w \<in> set (frontier s). mobile w \<and> line_inv (path_cost w) s)"

text \<open>
  What \<open>successor\<close> and \<open>is_goal_state\<close> read of a state: the location and the bananas
  left, in the order the container gives them.
\<close>

definition sabs :: "HungryMonkeyState \<Rightarrow> Coordinate \<times> Coordinate list" where
  "sabs s = (current_location s, elements (remaining_bananas s))"

text \<open>An action sequence solves a state when replaying it from there passes through states
  only and ends in a goal state.\<close>

definition solves :: "HungryMonkeyProblem \<Rightarrow> HungryMonkeyState \<Rightarrow> Action list \<Rightarrow> bool" where
  "solves p s as =
     (case replay p (State s) as of
        Inl e \<Rightarrow> False
      | Inr (State g) \<Rightarrow> is_goal_state g
      | Inr (Tuple loc b) \<Rightarrow> False)"

text \<open>
  The states of the nodes that \<open>child_node\<close> can build: a location of the grid and a list of
  bananas left, which is the banana list of the problem without the bananas eaten.
\<close>

definition state_space :: "HungryMonkeyProblem \<Rightarrow> (Coordinate \<times> Coordinate list) set" where
  "state_space p =
     {loc. is_inside_grid_map p loc} \<times>
     (\<lambda>S. filter (\<lambda>b. b \<in> S) (banana_locations p)) ` Pow (set (banana_locations p))"

definition list_node :: "HungryMonkeyProblem \<Rightarrow> HungryMonkeyNode \<Rightarrow> bool" where
  "list_node p n =
     ((\<exists>ys. remaining_bananas (state n) = PyList ys) \<and> sabs (state n) \<in> state_space p)"

text \<open>The states that are keys of \<open>reached\<close>.\<close>

definition reached_states :: "search_state \<Rightarrow> (Coordinate \<times> Coordinate list) set" where
  "reached_states s = (\<lambda>kv. sabs (state (fst kv))) ` set (reached s)"

text \<open>
  What the body of \<open>for child in succesors\<close> does to the frontier, \<open>reached\<close> and the
  solution, in both cost-ordered searches; \<open>val\<close> is the cost they compare, \<open>path_cost\<close> in
  uniform-cost search and \<open>path_cost + heuristic_cost\<close> in heuristic search.
\<close>

definition visited ::
  "(HungryMonkeyNode \<Rightarrow> int) \<Rightarrow> HungryMonkeyNode \<Rightarrow> search_state \<Rightarrow> search_state \<Rightarrow> bool" where
  "visited val c s s' =
     (if \<not> node_in c (map fst (reached s)) \<or>
         (case dict_get (reached s) c of None \<Rightarrow> False | Some v \<Rightarrow> val c < v)
      then frontier s' = heappush node_lt (frontier s) c \<and>
           reached s' = dict_set (reached s) c (val c) \<and>
           (if is_goal_state (state c) \<and> num_lt (val c) (solution s)
            then solution s' = Finite (val c) \<and> solution_node s' = Some c
            else solution s' = solution s \<and> solution_node s' = solution_node s)
      else frontier s' = frontier s \<and> reached s' = reached s \<and>
           solution s' = solution s \<and> solution_node s' = solution_node s)"

text \<open>
  Every state that is the initial state or a key of \<open>reached\<close>, the state \<open>ex\<close> apart (the
  state of the node being expanded), has a node in the frontier or has all its successors
  among the keys of \<open>reached\<close>.
\<close>

definition closed_except ::
  "HungryMonkeyProblem \<Rightarrow> search_state \<Rightarrow> (Coordinate \<times> Coordinate list) option \<Rightarrow> bool" where
  "closed_except p s ex =
     (\<forall>t. sabs t \<in> insert (sabs (state (initial_node p))) (reached_states s) \<longrightarrow>
          Some (sabs t) \<noteq> ex \<longrightarrow>
          (\<exists>x \<in> set (frontier s). sabs (state x) = sabs t) \<or>
          (\<forall>a \<in> set (available_actions_for p t). \<forall>t'.
             successor p t a = State t' \<longrightarrow> sabs t' \<in> reached_states s))"

text \<open>
  What the loops of the cost-ordered searches keep true beyond \<open>search_inv\<close>: the keys of
  \<open>reached\<close> are nodes built by \<open>child_node\<close>; a finite solution comes with its node; and as
  long as no solution is found, no key of \<open>reached\<close> is a goal state and the states seen are
  closed in the sense above.
\<close>

definition total_inv ::
  "HungryMonkeyProblem \<Rightarrow> (Coordinate \<times> Coordinate list) option \<Rightarrow> search_state \<Rightarrow> bool" where
  "total_inv p ex s =
     (search_inv p s \<and>
      (\<forall>kv \<in> set (reached s). list_node p (fst kv)) \<and>
      (solution s \<noteq> Infinity \<longrightarrow> solution_node s \<noteq> None) \<and>
      (solution s = Infinity \<longrightarrow>
         (\<forall>kv \<in> set (reached s). \<not> is_goal_state (state (fst kv))) \<and> closed_except p s ex))"

text \<open>
  The quantities that decrease: the number of states that are no key of \<open>reached\<close> yet, and
  the costs recorded in \<open>reached\<close> above a lower bound \<open>L\<close>.
\<close>

definition reached_measure :: "HungryMonkeyProblem \<Rightarrow> int \<Rightarrow> search_state \<Rightarrow> nat \<times> nat" where
  "reached_measure p L s =
     (card (state_space p - reached_states s),
      sum_list (map (\<lambda>kv. nat (snd kv - L)) (reached s)))"

definition not_larger :: "HungryMonkeyProblem \<Rightarrow> int \<Rightarrow> search_state \<Rightarrow> search_state \<Rightarrow> bool" where
  "not_larger p L s' s =
     ((reached_measure p L s', reached_measure p L s) \<in> less_than <*lex*> less_than \<or>
      (reached_measure p L s' = reached_measure p L s \<and>
       length (frontier s') = length (frontier s)))"

text \<open>A grid of width 3 and height 1, the eater in the middle and a banana at each end.\<close>

definition three_world :: EaterWorld where
  "three_world =
     \<lparr>world_size = (3, 1), eater_location = (1, 0), food_locations = [(0, 0), (2, 0)],
      blocks = []\<rparr>"

section \<open>Node equality and hashing\<close>

lemma py_eq_refl: "py_eq b b"
  by (cases b) simp_all

lemma py_eq_sym: "py_eq a b \<Longrightarrow> py_eq b a"
  by (cases a; cases b) auto

lemma py_eq_trans: "py_eq a b \<Longrightarrow> py_eq b c \<Longrightarrow> py_eq a c"
  by (cases a; cases b; cases c) auto

lemma py_eq_frozenset: "py_eq a b \<Longrightarrow> frozenset a = frozenset b"
  by (cases a; cases b) (auto simp: frozenset_def)

lemma node_eq_refl: "node_eq a a"
  by (simp add: node_eq_def py_eq_refl)

lemma node_eq_sym: "node_eq a b \<Longrightarrow> node_eq b a"
  by (simp add: node_eq_def py_eq_sym)

lemma node_eq_trans: "node_eq a b \<Longrightarrow> node_eq b c \<Longrightarrow> node_eq a c"
  by (auto simp: node_eq_def intro: py_eq_trans)

lemma node_eq_hash: "node_eq a b \<Longrightarrow> node_hash h a = node_hash h b"
  by (auto simp: node_eq_def node_hash_def prod_eq_iff dest: py_eq_frozenset)

text \<open>
  C6, where the code departs from the claim. \<open>__eq__\<close> is reflexive, symmetric and
  transitive and equal nodes hash alike (the lemmas above), but it is not determined by the
  location and the set of remaining bananas: it compares the \<open>remaining_bananas\<close>
  containers with \<open>==\<close>. On the 4-by-1 grid the root and the node reached by East, West
  have the same location, the same set of remaining bananas and the same hash, and do not
  compare equal.
\<close>

theorem node_eq_not_by_location_and_banana_set:
  "child_node (UCPlayer_problem line_world [East, West])
     (initial_node (UCPlayer_problem line_world [East, West])) East =
     Inr (Node \<lparr>current_location = (1, 0), remaining_bananas = PyList [(3, 0)]\<rparr> 1 (Some East)
            (Some (initial_node (UCPlayer_problem line_world [East, West]))) 0) \<and>
   child_node (UCPlayer_problem line_world [East, West])
     (Node \<lparr>current_location = (1, 0), remaining_bananas = PyList [(3, 0)]\<rparr> 1 (Some East)
           (Some (initial_node (UCPlayer_problem line_world [East, West]))) 0) West =
     Inr (Node \<lparr>current_location = (0, 0), remaining_bananas = PyList [(3, 0)]\<rparr> 2 (Some West)
            (Some (Node \<lparr>current_location = (1, 0), remaining_bananas = PyList [(3, 0)]\<rparr> 1
                     (Some East)
                     (Some (initial_node (UCPlayer_problem line_world [East, West]))) 0)) 0) \<and>
   current_location (state (initial_node (UCPlayer_problem line_world [East, West]))) = (0, 0) \<and>
   frozenset (remaining_bananas
                (state (initial_node (UCPlayer_problem line_world [East, West])))) = {(3, 0)} \<and>
   frozenset (PyList [(3, 0)]) = {(3, 0)} \<and>
   node_hash id (initial_node (UCPlayer_problem line_world [East, West])) =
     node_hash id
       (Node \<lparr>current_location = (0, 0), remaining_bananas = PyList [(3, 0)]\<rparr> 2 (Some West)
          (Some (Node \<lparr>current_location = (1, 0), remaining_bananas = PyList [(3, 0)]\<rparr> 1
                   (Some East)
                   (Some (initial_node (UCPlayer_problem line_world [East, West]))) 0)) 0) \<and>
   \<not> node_eq (initial_node (UCPlayer_problem line_world [East, West]))
       (Node \<lparr>current_location = (0, 0), remaining_bananas = PyList [(3, 0)]\<rparr> 2 (Some West)
          (Some (Node \<lparr>current_location = (1, 0), remaining_bananas = PyList [(3, 0)]\<rparr> 1
                   (Some East)
                   (Some (initial_node (UCPlayer_problem line_world [East, West]))) 0)) 0) \<and>
   \<not> node_eq
       (Node \<lparr>current_location = (0, 0), remaining_bananas = PyList [(3, 0)]\<rparr> 2 (Some West)
          (Some (Node \<lparr>current_location = (1, 0), remaining_bananas = PyList [(3, 0)]\<rparr> 1
                   (Some East)
                   (Some (initial_node (UCPlayer_problem line_world [East, West]))) 0)) 0)
       (initial_node (UCPlayer_problem line_world [East, West]))"
  by (simp add: child_node_def successor_def available_actions_for_def move_def
        is_inside_grid_map_def py_in_def West_def East_def UCPlayer_problem_def
        HungryMonkeyProblem_init_def line_world_def new_node_def initial_node_def
        node_eq_def node_hash_def frozenset_def)

lemma child_node_is_list:
  "child_node p par a = Inr child \<Longrightarrow> \<exists>ys. remaining_bananas (state child) = PyList ys"
  by (auto simp: child_node_def successor_def Let_def split: if_splits)

text \<open>
  C10. A node whose bananas are a set (the root) and a node built by \<open>child_node\<close> (whose
  bananas are a list) with the same location and the same banana coordinates have the same
  hash and do not compare equal, in either order; so the child is not found in a list or
  dictionary that holds the root.
\<close>

theorem root_and_child_same_hash_not_equal:
  assumes "remaining_bananas (state root) = PySet xs"
      and "child_node p par a = Inr child"
      and "current_location (state child) = current_location (state root)"
      and "set (elements (remaining_bananas (state child))) = set xs"
  shows "node_hash h child = node_hash h root \<and> \<not> node_eq root child \<and>
         \<not> node_eq child root \<and> \<not> node_in child [root] \<and>
         dict_get [(root, v)] child = None"
proof -
  from child_node_is_list [OF assms(2)] obtain ys
    where ys: "remaining_bananas (state child) = PyList ys" by blast
  have ne: "\<not> node_eq root child" "\<not> node_eq child root"
    using assms(1) ys by (simp_all add: node_eq_def)
  have "node_hash h child = node_hash h root"
    using assms(1,3,4) ys by (simp add: node_hash_def frozenset_def)
  with ne show ?thesis by (simp add: node_in_def)
qed

theorem root_and_child_same_hash_not_equal_witness:
  "remaining_bananas (state (initial_node (UCPlayer_problem line_world [East, West]))) =
     PySet [(3, 0)] \<and>
   child_node (UCPlayer_problem line_world [East, West])
     (Node \<lparr>current_location = (1, 0), remaining_bananas = PyList [(3, 0)]\<rparr> 1 (Some East)
           (Some (initial_node (UCPlayer_problem line_world [East, West]))) 0) West =
     Inr (Node \<lparr>current_location = (0, 0), remaining_bananas = PyList [(3, 0)]\<rparr> 2 (Some West)
            (Some (Node \<lparr>current_location = (1, 0), remaining_bananas = PyList [(3, 0)]\<rparr> 1
                     (Some East)
                     (Some (initial_node (UCPlayer_problem line_world [East, West]))) 0)) 0) \<and>
   node_hash id (Node \<lparr>current_location = (0, 0), remaining_bananas = PyList [(3, 0)]\<rparr> 2
                  (Some West)
                  (Some (Node \<lparr>current_location = (1, 0), remaining_bananas = PyList [(3, 0)]\<rparr>
                           1 (Some East)
                           (Some (initial_node (UCPlayer_problem line_world [East, West]))) 0)) 0) =
     node_hash id (initial_node (UCPlayer_problem line_world [East, West])) \<and>
   \<not> node_eq (initial_node (UCPlayer_problem line_world [East, West]))
       (Node \<lparr>current_location = (0, 0), remaining_bananas = PyList [(3, 0)]\<rparr> 2 (Some West)
          (Some (Node \<lparr>current_location = (1, 0), remaining_bananas = PyList [(3, 0)]\<rparr> 1
                   (Some East)
                   (Some (initial_node (UCPlayer_problem line_world [East, West]))) 0)) 0)"
proof -
  let ?P = "UCPlayer_problem line_world [East, West]"
  let ?par = "Node \<lparr>current_location = (1, 0), remaining_bananas = PyList [(3, 0)]\<rparr> 1
                (Some East) (Some (initial_node ?P)) 0"
  let ?child = "Node \<lparr>current_location = (0, 0), remaining_bananas = PyList [(3, 0)]\<rparr> 2
                  (Some West) (Some ?par) 0"
  have 1: "remaining_bananas (state (initial_node ?P)) = PySet [(3, 0)]"
    by (simp add: initial_node_def new_node_def UCPlayer_problem_def
                  HungryMonkeyProblem_init_def line_world_def)
  have 2: "child_node ?P ?par West = Inr ?child"
    by (simp add: child_node_def successor_def available_actions_for_def move_def
                  is_inside_grid_map_def py_in_def West_def East_def UCPlayer_problem_def
                  HungryMonkeyProblem_init_def line_world_def new_node_def)
  have 3: "current_location (state ?child) = current_location (state (initial_node ?P))"
    by (simp add: initial_node_def new_node_def UCPlayer_problem_def
                  HungryMonkeyProblem_init_def line_world_def)
  have 4: "set (elements (remaining_bananas (state ?child))) = set [(3, 0)]"
    by simp
  from root_and_child_same_hash_not_equal [OF 1 2 3 4, of id] 1 2 show ?thesis
    by simp
qed

section \<open>The remaining bananas only shrink\<close>

lemma successor_bananas_subset:
  "frozenset (successor_bananas (successor p s a)) \<subseteq> frozenset (remaining_bananas s)"
  by (auto simp: successor_def frozenset_def Let_def)

lemma replay_bananas_subset:
  "replay p v as = Inr w \<Longrightarrow>
   frozenset (successor_bananas w) \<subseteq> frozenset (successor_bananas v)"
proof (induction p v as rule: replay.induct)
  case (2 p s a as)
  then have "frozenset (successor_bananas w) \<subseteq> frozenset (successor_bananas (successor p s a))"
    by simp
  with successor_bananas_subset [of p s a] show ?case by auto
qed simp_all

text \<open>
  C8. Whatever sequence of actions is replayed from the initial state, the bananas that remain
  are among the problem's \<open>banana_locations\<close>; and the bananas of what \<open>successor\<close> returns
  are among those of the state it was given.
\<close>

theorem remaining_bananas_shrink:
  "(replay p (State (state (initial_node p))) as = Inr w \<longrightarrow>
      frozenset (successor_bananas w) \<subseteq> set (banana_locations p)) \<and>
   frozenset (successor_bananas (successor p s a)) \<subseteq> frozenset (remaining_bananas s)"
proof -
  have "frozenset (successor_bananas (State (state (initial_node p)))) = set (banana_locations p)"
    by (simp add: initial_node_def new_node_def frozenset_def)
  then show ?thesis
    using replay_bananas_subset [of p "State (state (initial_node p))" as w]
          successor_bananas_subset [of p s a]
    by auto
qed

theorem remaining_bananas_shrink_witness:
  "replay (IDPlayer_problem line_world [East, West])
     (State (state (initial_node (IDPlayer_problem line_world [East, West]))))
     [East, East, East] =
     Inr (State \<lparr>current_location = (3, 0), remaining_bananas = PyList []\<rparr>) \<and>
   frozenset (successor_bananas (State \<lparr>current_location = (3, 0), remaining_bananas = PyList []\<rparr>))
     \<subseteq> set (banana_locations (IDPlayer_problem line_world [East, West]))"
proof -
  let ?P = "IDPlayer_problem line_world [East, West]"
  have r: "replay ?P (State (state (initial_node ?P))) [East, East, East] =
        Inr (State \<lparr>current_location = (3, 0), remaining_bananas = PyList []\<rparr>)"
    by (simp add: successor_def available_actions_for_def move_def
                  is_inside_grid_map_def West_def East_def IDPlayer_problem_def
                  HungryMonkeyProblem_init_def line_world_def initial_node_def new_node_def)
  from remaining_bananas_shrink [of ?P "[East, East, East]"
         "State \<lparr>current_location = (3, 0), remaining_bananas = PyList []\<rparr>"] r
  show ?thesis by simp
qed

section \<open>A problem that starts in a goal state\<close>

lemma grid_card:
  "card ({0 ..< w} \<times> {0 ..< h} :: (int \<times> int) set) = nat w * nat h"
  by (simp add: card_cartesian_product)

lemma valid_grid_free_cells:
  assumes "valid_grid p"
  shows "0 < free_cells p"
proof -
  let ?w = "fst (map_size p)" and ?h = "snd (map_size p)"
  let ?G = "{0 ..< ?w} \<times> {0 ..< ?h} :: (int \<times> int) set"
  from assms have init: "initial_location p \<in> ?G"
    by (cases "initial_location p") (auto simp: valid_grid_def is_inside_grid_map_def)
  from assms have sub: "set (block_locations p) \<subseteq> ?G - {initial_location p}"
    by (auto simp: valid_grid_def is_inside_grid_map_def list_all_iff)
  have fin: "finite ?G" by simp
  have "card (set (block_locations p)) \<le> card (?G - {initial_location p})"
    using sub fin by (intro card_mono) auto
  also have "\<dots> = card ?G - 1"
    using init fin by simp
  finally have "length (block_locations p) \<le> card ?G - 1"
    using assms by (simp add: valid_grid_def distinct_card)
  moreover have "0 < card ?G"
    using init fin by (metis card_gt_0_iff empty_iff)
  ultimately have "length (block_locations p) < card ?G"
    by linarith
  then have "length (block_locations p) < nat ?w * nat ?h"
    by (simp only: grid_card)
  then have "int (length (block_locations p)) < int (nat ?w * nat ?h)"
    by (simp only: of_nat_less_iff)
  moreover from init have "0 < ?w" "0 < ?h" by auto
  then have "int (nat ?w * nat ?h) = ?w * ?h"
    by simp
  ultimately show ?thesis by (simp add: free_cells_def)
qed

lemma range_pos: "0 < n \<Longrightarrow> range n = 0 # [1 ..< nat n]"
  by (simp add: range_def upt_conv_Cons)

text \<open>
  C4. When the initial state is already a goal state, uniform-cost search, heuristic search
  and iterative deepening each return the empty action sequence with total 0, and each counts
  one node, the root: \<open>counter\<close> grows by one, \<open>total_counter\<close> grows by one, and the only
  depth limit tried is 0.
\<close>

theorem goal_at_start_returns_empty:
  assumes "is_goal_state (state (initial_node p))" and "valid_grid p"
  shows "uniform_cost_search p cnt =
           Some (Inr (\<lparr>sequence_actions = [], total_reward = Finite 0\<rparr>, cnt + 1)) \<and>
         astar_search p cnt =
           Some (Inr (\<lparr>sequence_actions = [], total_reward = Finite 0\<rparr>, cnt + 1)) \<and>
         iterative_deepening_search p pl =
           (Inr (Solution \<lparr>sequence_actions = [], total_reward = Finite 0\<rparr>),
            pl\<lparr>id_counter := 0, total_counter := total_counter pl + 1,
               printed := printed pl @ [LimitDepth 0, NodesExplored (id_counter pl + 1)]\<rparr>)"
proof -
  have ucs: "uniform_cost_search p cnt =
           Some (Inr (\<lparr>sequence_actions = [], total_reward = Finite 0\<rparr>, cnt + 1))"
    using assms(1) by (simp add: uniform_cost_search_def)
  have astar: "astar_search p cnt =
           Some (Inr (\<lparr>sequence_actions = [], total_reward = Finite 0\<rparr>, cnt + 1))"
    using assms(1) by (simp add: astar_search_def)
  have unwrap: "unwrap_solution (Some (initial_node p)) = Inr []"
    by (simp add: unwrap_solution_def initial_node_def new_node_def)
  have cost: "path_cost (initial_node p) = 0"
    by (simp add: initial_node_def new_node_def)
  have dls: "depth_limited_search p 0 pl =
      (Inr (Solution \<lparr>sequence_actions = [], total_reward = Finite 0\<rparr>),
       pl\<lparr>id_counter := id_counter pl + 1, total_counter := total_counter pl + 1,
          printed := printed pl @ [LimitDepth 0]\<rparr>)"
    using assms(1) by (simp add: depth_limited_search_def recursive_dls.simps unwrap cost)
  have "iterative_deepening_search p pl =
           (Inr (Solution \<lparr>sequence_actions = [], total_reward = Finite 0\<rparr>),
            pl\<lparr>id_counter := 0, total_counter := total_counter pl + 1,
               printed := printed pl @ [LimitDepth 0, NodesExplored (id_counter pl + 1)]\<rparr>)"
    using valid_grid_free_cells [OF assms(2)]
    by (simp add: iterative_deepening_search_def range_pos dls)
  with ucs astar show ?thesis by simp
qed

theorem goal_at_start_returns_empty_witness:
  "is_goal_state (state (initial_node (IDPlayer_problem empty_world [East, West]))) \<and>
   valid_grid (IDPlayer_problem empty_world [East, West]) \<and>
   uniform_cost_search (IDPlayer_problem empty_world [East, West]) 0 =
     Some (Inr (\<lparr>sequence_actions = [], total_reward = Finite 0\<rparr>, 1)) \<and>
   astar_search (IDPlayer_problem empty_world [East, West]) 0 =
     Some (Inr (\<lparr>sequence_actions = [], total_reward = Finite 0\<rparr>, 1)) \<and>
   iterative_deepening_search (IDPlayer_problem empty_world [East, West]) new_player =
     (Inr (Solution \<lparr>sequence_actions = [], total_reward = Finite 0\<rparr>),
      \<lparr>id_counter = 0, total_counter = 1, printed = [LimitDepth 0, NodesExplored 1]\<rparr>)"
proof -
  let ?P = "IDPlayer_problem empty_world [East, West]"
  have 1: "is_goal_state (state (initial_node ?P))"
    by (simp add: is_goal_state_def initial_node_def new_node_def IDPlayer_problem_def
                  HungryMonkeyProblem_init_def empty_world_def)
  have 2: "valid_grid ?P"
    by (simp add: valid_grid_def is_inside_grid_map_def IDPlayer_problem_def
                  HungryMonkeyProblem_init_def empty_world_def)
  from goal_at_start_returns_empty [OF 1 2, of 0 new_player] 1 2 show ?thesis
    by (simp add: new_player_def)
qed

section \<open>A world without a reachable goal state\<close>

lemma blocked_successor:
  assumes "map_size p = (4, 1)" "block_locations p = [(2, 0)]" "possible_actions p = [East, West]"
      and "blocked_inv (State s)"
  shows "blocked_inv (successor p s a)"
  using assms
  by (auto simp: successor_def available_actions_for_def move_def is_inside_grid_map_def
                 East_def West_def Let_def)

lemma blocked_replay:
  "replay p v as = Inr w \<Longrightarrow> map_size p = (4, 1) \<Longrightarrow> block_locations p = [(2, 0)] \<Longrightarrow>
   possible_actions p = [East, West] \<Longrightarrow> blocked_inv v \<Longrightarrow> blocked_inv w"
proof (induction p v as rule: replay.induct)
  case (2 p s a as)
  from blocked_successor [OF "2.prems"(2,3,4,5)] have "blocked_inv (successor p s a)" .
  with 2 show ?case by simp
qed simp_all

lemma blocked_world_unreachable:
  assumes "replay (UCPlayer_problem blocked_world [East, West])
             (State (state (initial_node (UCPlayer_problem blocked_world [East, West])))) as = Inr w"
  shows "elements (successor_bananas w) \<noteq> []"
proof -
  let ?P = "UCPlayer_problem blocked_world [East, West]"
  have "blocked_inv (State (state (initial_node ?P)))"
    by (simp add: initial_node_def new_node_def UCPlayer_problem_def
          HungryMonkeyProblem_init_def blocked_world_def)
  from blocked_replay [OF assms _ _ _ this] have "blocked_inv w"
    by (simp add: UCPlayer_problem_def HungryMonkeyProblem_init_def blocked_world_def)
  then show ?thesis by (cases w) auto
qed

text \<open>
  C2. In the blocked world no goal state can be reached (\<open>blocked_world_unreachable\<close>).
  Both cost-ordered searches empty the frontier and leave the loop with \<open>solution_node\<close>
  still \<open>None\<close>; \<open>unwrap_solution(None)\<close> then raises \<open>AttributeError\<close> instead of
  reporting that there is no solution.
\<close>

theorem no_solution_raises_attribute_error:
  "uniform_cost_search (UCPlayer_problem blocked_world [East, West]) 0 =
     Some (Inl AttributeError) \<and>
   astar_search (AStarPlayer_problem blocked_world [East, West]) 0 =
     Some (Inl AttributeError)"
  by code_simp

text \<open>
  C3, as amended. With the step cost 1 and the banana reward -10 that \<open>UCPlayer\<close> configures,
  uniform-cost search on the 4-by-1 grid returns East, East, East with total -7.
\<close>

theorem ucs_line_world:
  "uniform_cost_search (UCPlayer_problem line_world [East, West]) 0 =
     Some (Inr (\<lparr>sequence_actions = [East, East, East], total_reward = Finite (- 7)\<rparr>, 6))"
  by code_simp

lemmas blocked_eval =
  depth_limited_search_def recursive_dls.simps IDPlayer_problem_def HungryMonkeyProblem_init_def
  blocked_world_def initial_node_def new_node_def is_goal_state_def child_nodes_def
  available_actions_for_def move_def is_inside_grid_map_def child_node_def successor_def
  py_in_def East_def West_def clean_childs_def node_in_def node_eq_def set_add_def
  unwrap_solution_def Let_def

text \<open>
  C5. In the blocked world the node at \<open>x = 1\<close> has one child, back at \<open>x = 0\<close> with the
  banana at \<open>x = 3\<close> remaining: the location and bananas of the root, which is in the set of
  explored nodes. The filter keeps the child (the root holds a set, the child a list), and the
  search to depth 2 visits three nodes: the root, the node at \<open>x = 1\<close> and that child.
\<close>

theorem dls_recurses_into_root_state:
  "child_nodes (IDPlayer_problem blocked_world [East, West])
     (Node \<lparr>current_location = (1, 0), remaining_bananas = PyList [(3, 0)]\<rparr> (- 1) (Some East)
           (Some (initial_node (IDPlayer_problem blocked_world [East, West]))) 0) =
     Inr [Node \<lparr>current_location = (0, 0), remaining_bananas = PyList [(3, 0)]\<rparr> (- 2) (Some West)
            (Some (Node \<lparr>current_location = (1, 0), remaining_bananas = PyList [(3, 0)]\<rparr> (- 1)
                     (Some East)
                     (Some (initial_node (IDPlayer_problem blocked_world [East, West]))) 0)) 0] \<and>
   clean_childs
     [Node \<lparr>current_location = (0, 0), remaining_bananas = PyList [(3, 0)]\<rparr> (- 2) (Some West)
        (Some (Node \<lparr>current_location = (1, 0), remaining_bananas = PyList [(3, 0)]\<rparr> (- 1)
                 (Some East)
                 (Some (initial_node (IDPlayer_problem blocked_world [East, West]))) 0)) 0]
     (set_add (set_add [] (initial_node (IDPlayer_problem blocked_world [East, West])))
              (initial_node (IDPlayer_problem blocked_world [East, West]))) =
     [Node \<lparr>current_location = (0, 0), remaining_bananas = PyList [(3, 0)]\<rparr> (- 2) (Some West)
        (Some (Node \<lparr>current_location = (1, 0), remaining_bananas = PyList [(3, 0)]\<rparr> (- 1)
                 (Some East)
                 (Some (initial_node (IDPlayer_problem blocked_world [East, West]))) 0)) 0] \<and>
   state (initial_node (IDPlayer_problem blocked_world [East, West])) =
     \<lparr>current_location = (0, 0), remaining_bananas = PySet [(3, 0)]\<rparr> \<and>
   depth_limited_search (IDPlayer_problem blocked_world [East, West]) 2 new_player =
     (Inr Cutoff, \<lparr>id_counter = 3, total_counter = 3, printed = [LimitDepth 2]\<rparr>)"
  by (simp add: blocked_eval numeral_2_eq_2 new_player_def)


section \<open>Iterative deepening on the 4-by-1 grid\<close>

lemmas line_eval =
  depth_limited_search_def recursive_dls.simps IDPlayer_problem_def HungryMonkeyProblem_init_def
  line_world_def initial_node_def new_node_def is_goal_state_def child_nodes_def
  available_actions_for_def move_def is_inside_grid_map_def child_node_def successor_def
  py_in_def East_def West_def clean_childs_def node_in_def node_eq_def set_add_def
  unwrap_solution_def Let_def

lemma line_dls_0:
  "depth_limited_search (IDPlayer_problem line_world [East, West]) 0 pl =
     (Inr Cutoff, pl\<lparr>id_counter := id_counter pl + 1, total_counter := total_counter pl + 1,
                      printed := printed pl @ [LimitDepth 0]\<rparr>)"
  by (simp add: line_eval)

lemma line_dls_1:
  "depth_limited_search (IDPlayer_problem line_world [East, West]) (Suc 0) pl =
     (Inr Cutoff, pl\<lparr>id_counter := id_counter pl + 2, total_counter := total_counter pl + 2,
                      printed := printed pl @ [LimitDepth 1]\<rparr>)"
  by (simp add: line_eval)

lemma line_dls_2:
  "depth_limited_search (IDPlayer_problem line_world [East, West]) 2 pl =
     (Inr Cutoff, pl\<lparr>id_counter := id_counter pl + 4, total_counter := total_counter pl + 4,
                      printed := printed pl @ [LimitDepth 2]\<rparr>)"
  by (simp add: line_eval numeral_2_eq_2)

lemma line_dls_3:
  "depth_limited_search (IDPlayer_problem line_world [East, West]) 3 pl =
     (Inr (Solution \<lparr>sequence_actions = [East, East, East], total_reward = Finite 7\<rparr>),
      pl\<lparr>id_counter := id_counter pl + 4, total_counter := total_counter pl + 4,
        printed := printed pl @ [LimitDepth 3]\<rparr>)"
  by (simp add: line_eval numeral_3_eq_3)

lemma line_range: "range (free_cells (IDPlayer_problem line_world [East, West])) = [0, Suc 0, 2, 3]"
  by (simp add: range_def free_cells_def IDPlayer_problem_def HungryMonkeyProblem_init_def
        line_world_def upt_rec numeral_eq_Suc)

lemma line_ids_run:
  "iterative_deepening_search (IDPlayer_problem line_world [East, West]) new_player =
     (Inr (Solution \<lparr>sequence_actions = [East, East, East], total_reward = Finite 7\<rparr>),
      \<lparr>id_counter = 0, total_counter = 11,
        printed = [LimitDepth 0, NodesExplored 1, LimitDepth 1, NodesExplored 2,
                   LimitDepth 2, NodesExplored 4, LimitDepth 3, NodesExplored 4]\<rparr>)"
  by (simp add: iterative_deepening_search_def line_range line_dls_0 line_dls_1 line_dls_2
        line_dls_3 new_player_def)

text \<open>
  C9, the claim as stated fails. \<open>IDPlayer\<close> builds its problem with the defaults, banana
  reward 10 and step cost -1; on the 4-by-1 grid the total of the result is 7, not 3 times
  the step cost.
\<close>

theorem ids_total_includes_banana_reward:
  "iterative_deepening_search (IDPlayer_problem line_world [East, West]) new_player =
     (Inr (Solution \<lparr>sequence_actions = [East, East, East], total_reward = Finite 7\<rparr>),
      \<lparr>id_counter = 0, total_counter = 11,
        printed = [LimitDepth 0, NodesExplored 1, LimitDepth 1, NodesExplored 2,
                   LimitDepth 2, NodesExplored 4, LimitDepth 3, NodesExplored 4]\<rparr>) \<and>
   banana_reward (IDPlayer_problem line_world [East, West]) = 10 \<and>
   step_cost (IDPlayer_problem line_world [East, West]) = - 1 \<and>
   Finite (int (length [East, East, East]) * step_cost (IDPlayer_problem line_world [East, West]))
     \<noteq> Finite 7"
  using line_ids_run by (simp add: IDPlayer_problem_def HungryMonkeyProblem_init_def)

section \<open>Properties of the nodes a search builds\<close>

lemma child_node_available:
  assumes "a \<in> set (available_actions_for p (state n))"
  shows "child_node p n a =
           Inr (Node \<lparr>current_location = move (current_location (state n)) a,
                      remaining_bananas =
                        PyList (filter (\<lambda>b. b \<noteq> move (current_location (state n)) a)
                                       (elements (remaining_bananas (state n))))\<rparr>
                     (path_cost n +
                        (if move (current_location (state n)) a
                              \<notin> set (elements (remaining_bananas (state n)))
                         then step_cost p else step_cost p + banana_reward p))
                     (Some a) (Some n)
                     (heuristic_func p
                        (new_node (move (current_location (state n)) a)
                           (PyList (filter (\<lambda>b. b \<noteq> move (current_location (state n)) a)
                                           (elements (remaining_bananas (state n))))))))"
  using assms by (simp add: child_node_def successor_def Let_def py_in_def prod_eq_iff)

lemma successor_available:
  assumes "a \<in> set (available_actions_for p s)"
  shows "successor p s a =
           State \<lparr>current_location = move (current_location s) a,
                  remaining_bananas =
                    PyList (filter (\<lambda>b. b \<noteq> move (current_location s) a)
                                   (elements (remaining_bananas s)))\<rparr>"
  using assms by (simp add: successor_def Let_def prod_eq_iff)

lemma child_node_state:
  assumes "a \<in> set (available_actions_for p (state n))" and "child_node p n a = Inr c"
  shows "successor p (state n) a = State (state c)"
    and "previous_action c = Some a" and "parent c = Some n"
  using assms by (auto simp: child_node_available successor_available)

lemma child_nodes_of_ok:
  assumes "set as \<subseteq> set (available_actions_for p (state n))"
  shows "\<exists>cs. child_nodes_of p n as = Inr cs \<and>
              (\<forall>c \<in> set cs. \<exists>a \<in> set as. child_node p n a = Inr c)"
  using assms
proof (induction as)
  case Nil
  then show ?case by simp
next
  case (Cons a as)
  then obtain cs where cs: "child_nodes_of p n as = Inr cs"
      "\<forall>c \<in> set cs. \<exists>a \<in> set as. child_node p n a = Inr c" by auto
  from Cons.prems have "a \<in> set (available_actions_for p (state n))" by simp
  from child_node_available [OF this] obtain c where c: "child_node p n a = Inr c" by blast
  with cs show ?case by auto
qed

lemma child_nodes_ok:
  "\<exists>cs. child_nodes p n = Inr cs \<and>
        (\<forall>c \<in> set cs. \<exists>a \<in> set (available_actions_for p (state n)). child_node p n a = Inr c)"
  unfolding child_nodes_def by (rule child_nodes_of_ok) simp

lemma child_nodes_derived:
  assumes "derived p n" and "child_nodes p n = Inr cs" and "c \<in> set cs"
  shows "derived p c"
proof -
  from child_nodes_ok [of p n] assms(2,3)
  obtain a where "a \<in> set (available_actions_for p (state n))" "child_node p n a = Inr c"
    by auto
  with assms(1) show ?thesis by (rule derived.child)
qed

lemma derived_unwrap_loop:
  "derived p n \<Longrightarrow> unwrap_loop (Some n) acc = Inr (acc @ rev (path_actions n))"
proof (induction arbitrary: acc rule: derived.induct)
  case root
  show ?case by (simp add: initial_node_def new_node_def)
next
  case (child par a c)
  from child.hyps(2,3) show ?case
    by (auto simp: child_node_available child.IH)
qed

lemma derived_unwrap_solution:
  "derived p n \<Longrightarrow> unwrap_solution (Some n) = Inr (path_actions n)"
  by (simp add: unwrap_solution_def derived_unwrap_loop)

lemma replay_append:
  "replay p v (as @ bs) = (case replay p v as of Inl e \<Rightarrow> Inl e | Inr w \<Rightarrow> replay p w bs)"
  by (induction p v as rule: replay.induct) simp_all

lemma derived_replay:
  "derived p n \<Longrightarrow>
   replay p (State (state (initial_node p))) (path_actions n) = Inr (State (state n))"
proof (induction rule: derived.induct)
  case root
  show ?case by (simp add: initial_node_def new_node_def)
next
  case (child par a c)
  from child.hyps(2,3) have "path_actions c = path_actions par @ [a]"
    and "successor p (state par) a = State (state c)"
    by (auto simp: child_node_available successor_available)
  with child.IH show ?case by (simp add: replay_append)
qed

lemma card_filter_remove:
  assumes "x \<in> set xs"
  shows "card (set (filter (\<lambda>b. b \<noteq> x) xs)) = card (set xs) - 1"
proof -
  have "set (filter (\<lambda>b. b \<noteq> x) xs) = set xs - {x}" by auto
  then show ?thesis using assms by simp
qed

lemma derived_path_cost:
  "derived p n \<Longrightarrow>
   set (elements (remaining_bananas (state n))) \<subseteq> set (banana_locations p) \<and>
   path_cost n =
     int (length (path_actions n)) * step_cost p +
     (int (card (set (banana_locations p))) -
      int (card (set (elements (remaining_bananas (state n)))))) * banana_reward p"
proof (induction rule: derived.induct)
  case root
  show ?case by (simp add: initial_node_def new_node_def)
next
  case (child par a c)
  let ?loc = "move (current_location (state par)) a"
  let ?old = "elements (remaining_bananas (state par))"
  from child.hyps(2,3) have c:
    "elements (remaining_bananas (state c)) = filter (\<lambda>b. b \<noteq> ?loc) ?old"
    "path_cost c = path_cost par + (if ?loc \<notin> set ?old then step_cost p
                                     else step_cost p + banana_reward p)"
    "path_actions c = path_actions par @ [a]"
    by (auto simp: child_node_available)
  from child.IH have sub: "set ?old \<subseteq> set (banana_locations p)" by simp
  have le: "card (set ?old) \<le> card (set (banana_locations p))"
    using sub by (simp add: card_mono)
  define K where "K = int (card (set ?old))"
  define k where "k = int (card (set (elements (remaining_bananas (state c)))))"
  define B where "B = int (card (set (banana_locations p)))"
  define L where "L = int (length (path_actions par))"
  from child.IH have ih: "path_cost par = L * step_cost p + (B - K) * banana_reward p"
    by (simp add: K_def B_def L_def)
  have len: "int (length (path_actions c)) = L + 1"
    by (simp add: c(3) L_def)
  have sub': "set (elements (remaining_bananas (state c))) \<subseteq> set (banana_locations p)"
    using sub by (auto simp: c(1))
  have "path_cost c = (L + 1) * step_cost p + (B - k) * banana_reward p"
  proof (cases "?loc \<in> set ?old")
    case True
    then have "card (set (filter (\<lambda>b. b \<noteq> ?loc) ?old)) = card (set ?old) - 1"
      by (rule card_filter_remove)
    moreover from True have "0 < card (set ?old)" by (auto simp: card_gt_0_iff)
    ultimately have "K = k + 1"
      by (simp add: k_def K_def c(1))
    moreover from True have "path_cost c = path_cost par + step_cost p + banana_reward p"
      by (simp add: c(2))
    ultimately show ?thesis
      by (simp add: ih algebra_simps)
  next
    case False
    then have "filter (\<lambda>b. b \<noteq> ?loc) ?old = ?old" by (auto simp: filter_id_conv)
    then have "k = K" by (simp add: k_def K_def c(1))
    moreover from False have "path_cost c = path_cost par + step_cost p"
      by (simp add: c(2))
    ultimately show ?thesis
      by (simp add: ih algebra_simps)
  qed
  with sub' len show ?case
    by (simp add: k_def B_def)
qed


section \<open>Soundness of the depth-limited search and of iterative deepening\<close>

lemma dls_for_sound:
  assumes "\<And>c pl. c \<in> set cs \<Longrightarrow> sound_result p (fst (rec c pl))"
  shows "sound_result p (fst (dls_for rec cs b pl))"
  using assms
proof (induction cs arbitrary: b pl)
  case Nil
  show ?case by simp
next
  case (Cons c cs)
  have c: "sound_result p (fst (rec c pl))" by (rule Cons.prems) simp
  have rest: "\<And>b pl. sound_result p (fst (dls_for rec cs b pl))"
    by (rule Cons.IH) (simp add: Cons.prems)
  obtain r pl' where r: "rec c pl = (r, pl')" by (cases "rec c pl")
  show ?case
  proof (cases r)
    case (Inl e)
    with c r show ?thesis by simp
  next
    case (Inr d)
    with c r rest show ?thesis by (cases d) simp_all
  qed
qed

lemma recursive_dls_sound:
  "derived p node \<Longrightarrow> sound_result p (fst (recursive_dls node p limit explored pl))"
proof (induction limit arbitrary: node explored pl)
  case 0
  then show ?case
    by (auto simp: recursive_dls.simps derived_unwrap_solution Let_def)
next
  case (Suc l)
  from child_nodes_ok [of p node] obtain cs where cs: "child_nodes p node = Inr cs" by blast
  have "sound_result p
          (fst (dls_for (\<lambda>child. recursive_dls child p l (set_add explored node))
                  (clean_childs cs explored) False pl'))" for pl'
  proof (rule dls_for_sound)
    fix c pl''
    assume "c \<in> set (clean_childs cs explored)"
    then have "c \<in> set cs" by (simp add: clean_childs_def)
    with Suc.prems cs have "derived p c" by (rule child_nodes_derived)
    then show "sound_result p (fst (recursive_dls c p l (set_add explored node) pl''))"
      by (rule Suc.IH)
  qed
  with Suc.prems cs show ?case
    by (auto simp: recursive_dls.simps derived_unwrap_solution Let_def)
qed

lemma dls_for_printed:
  assumes "\<And>c pl. printed (snd (rec c pl)) = printed pl"
  shows "printed (snd (dls_for rec cs b pl)) = printed pl"
proof (induction cs arbitrary: b pl)
  case Nil
  show ?case by simp
next
  case (Cons c cs)
  obtain r pl' where r: "rec c pl = (r, pl')" by (cases "rec c pl")
  with assms [of c pl] have "printed pl' = printed pl" by simp
  with r Cons.IH show ?case
    by (cases r) (auto split: dls_result.splits)
qed

lemma recursive_dls_printed:
  "printed (snd (recursive_dls node p limit explored pl)) = printed pl"
proof (induction limit arbitrary: node explored pl)
  case 0
  show ?case by (simp add: recursive_dls.simps Let_def split: sum.splits)
next
  case (Suc l)
  have "printed (snd (dls_for (\<lambda>child. recursive_dls child p l E) cs False pl1)) = printed pl1"
    for E cs pl1
    by (rule dls_for_printed) (rule Suc.IH)
  then show ?case
    by (simp add: recursive_dls.simps Let_def split: sum.splits)
qed

lemma depth_limited_search_printed:
  "printed (snd (depth_limited_search p depth pl)) = printed pl @ [LimitDepth depth]"
  by (simp add: depth_limited_search_def recursive_dls_printed)

lemma depth_limited_search_sound:
  "sound_result p (fst (depth_limited_search p depth pl))"
  unfolding depth_limited_search_def by (rule recursive_dls_sound) (rule derived.root)

lemma limit_depths_append:
  "limit_depths (xs @ ys) = limit_depths xs @ limit_depths ys"
  by (induction xs rule: limit_depths.induct) simp_all

lemma ids_for_depths:
  "\<exists>n \<le> length ds.
     limit_depths (printed (snd (ids_for p ds result pl))) = limit_depths (printed pl) @ take n ds"
proof (induction ds arbitrary: result pl)
  case Nil
  show ?case by (simp split: option.splits)
next
  case (Cons d ds)
  obtain r pl' where r: "depth_limited_search p d pl = (r, pl')"
    by (cases "depth_limited_search p d pl")
  with depth_limited_search_printed [of p d pl]
  have pr: "printed pl' = printed pl @ [LimitDepth d]" by simp
  show ?case
  proof (cases r)
    case (Inl e)
    with r pr have
      "limit_depths (printed (snd (ids_for p (d # ds) result pl))) =
         limit_depths (printed pl) @ take 1 (d # ds)"
      by (simp add: limit_depths_append)
    then show ?thesis by (intro exI [of _ 1]) simp
  next
    case (Inr res)
    let ?pl = "pl'\<lparr>printed := printed pl' @ [NodesExplored (id_counter pl')], id_counter := 0\<rparr>"
    have pr': "limit_depths (printed ?pl) = limit_depths (printed pl) @ [d]"
      by (simp add: pr limit_depths_append)
    show ?thesis
    proof (cases "res = Cutoff")
      case False
      with r Inr pr' have
        "limit_depths (printed (snd (ids_for p (d # ds) result pl))) =
           limit_depths (printed pl) @ take 1 (d # ds)"
        by (simp add: Let_def)
      then show ?thesis by (intro exI [of _ 1]) simp
    next
      case True
      from Cons.IH [of "Some res" ?pl] obtain n where n: "n \<le> length ds"
        "limit_depths (printed (snd (ids_for p ds (Some res) ?pl))) =
           limit_depths (printed ?pl) @ take n ds" by blast
      from True r Inr have "ids_for p (d # ds) result pl = ids_for p ds (Some res) ?pl"
        by (simp add: Let_def)
      with n pr' have
        "limit_depths (printed (snd (ids_for p (d # ds) result pl))) =
           limit_depths (printed pl) @ take (Suc n) (d # ds)"
        by simp
      with n(1) show ?thesis by (intro exI [of _ "Suc n"]) simp
    qed
  qed
qed

lemma ids_for_sound:
  assumes "\<And>r. result = Some r \<Longrightarrow> sound_result p (Inr r)"
      and "ds \<noteq> [] \<or> result \<noteq> None"
  shows "sound_result p (fst (ids_for p ds result pl))"
  using assms
proof (induction ds arbitrary: result pl)
  case Nil
  then show ?case by (auto split: option.splits)
next
  case (Cons d ds)
  obtain r pl' where r: "depth_limited_search p d pl = (r, pl')"
    by (cases "depth_limited_search p d pl")
  with depth_limited_search_sound [of p d pl] have s: "sound_result p r" by simp
  show ?case
  proof (cases r)
    case (Inl e)
    with s show ?thesis by simp
  next
    case (Inr res)
    let ?pl = "pl'\<lparr>printed := printed pl' @ [NodesExplored (id_counter pl')], id_counter := 0\<rparr>"
    have "sound_result p (fst (ids_for p ds (Some res) ?pl))"
      by (rule Cons.IH) (use s Inr in auto)
    with r Inr s show ?thesis by (auto simp: Let_def)
  qed
qed

lemma iterative_deepening_sound:
  assumes "0 < free_cells p"
  shows "sound_result p (fst (iterative_deepening_search p pl))"
  unfolding iterative_deepening_search_def
  by (rule ids_for_sound) (use assms in \<open>simp_all add: range_def\<close>)

lemma iterative_deepening_solution:
  assumes "iterative_deepening_search p pl = (Inr (Solution res), pl')"
  shows "\<exists>n. derived p n \<and> is_goal_state (state n) \<and> sequence_actions res = path_actions n \<and>
             total_reward res = Finite (path_cost n)"
proof -
  have "sound_result p (fst (ids_for p (range (free_cells p)) None pl))"
  proof (cases "range (free_cells p) = []")
    case True
    with assms show ?thesis by (simp add: iterative_deepening_search_def)
  next
    case False
    then show ?thesis by (intro ids_for_sound) simp_all
  qed
  with assms show ?thesis by (simp add: iterative_deepening_search_def)
qed

text \<open>
  C7. Iterative deepening calls the depth-limited search with the limits 0, 1, ... in this
  order, at most \<open>k\<close> times for \<open>k\<close> free cells (the banners it prints are those of the
  limits \<open>0\<close> to \<open>n - 1\<close> for some \<open>n\<close> up to \<open>k\<close>), and it returns: with a free cell
  its value is a result, a cutoff or the no-solution flag, never an exception.
\<close>

theorem ids_tries_at_most_k_depths:
  "\<exists>n r pl'. n \<le> nat (free_cells p) \<and>
      iterative_deepening_search p pl = (r, pl') \<and>
      limit_depths (printed pl') = limit_depths (printed pl) @ [0 ..< n] \<and>
      (0 < free_cells p \<longrightarrow> (\<exists>res. r = Inr res))"
proof -
  obtain r pl' where r: "iterative_deepening_search p pl = (r, pl')"
    by (cases "iterative_deepening_search p pl")
  from ids_for_depths [of "range (free_cells p)" p None pl] r
  obtain n where n: "n \<le> nat (free_cells p)"
    "limit_depths (printed pl') = limit_depths (printed pl) @ take n [0 ..< nat (free_cells p)]"
    by (auto simp: iterative_deepening_search_def range_def)
  from n have d: "limit_depths (printed pl') = limit_depths (printed pl) @ [0 ..< n]"
    by simp
  have "\<exists>res. r = Inr res" if "0 < free_cells p"
    using iterative_deepening_sound [OF that, of pl] r by (cases r) simp_all
  with n(1) r d show ?thesis by blast
qed

text \<open>
  C9, as amended. \<open>IDPlayer\<close> builds its problem with step cost -1 and banana reward 10,
  and the total of every result that iterative deepening returns is the number of actions
  times the step cost plus the number of bananas times the banana reward.
\<close>

theorem ids_total_is_steps_and_rewards:
  assumes "iterative_deepening_search p pl = (Inr (Solution res), pl')"
  shows "total_reward res =
           Finite (int (length (sequence_actions res)) * step_cost p +
                   int (card (set (banana_locations p))) * banana_reward p) \<and>
         step_cost (IDPlayer_problem world actions) = - 1 \<and>
         banana_reward (IDPlayer_problem world actions) = 10"
proof -
  from iterative_deepening_solution [OF assms] obtain n where n:
    "derived p n" "is_goal_state (state n)" "sequence_actions res = path_actions n"
    "total_reward res = Finite (path_cost n)" by blast
  from derived_path_cost [OF n(1)] n(2) have
    "path_cost n = int (length (path_actions n)) * step_cost p +
                   int (card (set (banana_locations p))) * banana_reward p"
    by (simp add: is_goal_state_def)
  with n show ?thesis
    by (simp add: IDPlayer_problem_def HungryMonkeyProblem_init_def)
qed

lemma ids_replays_to_goal:
  assumes "iterative_deepening_search p pl = (Inr (Solution res), pl')"
  shows "\<exists>s. replay p (State (state (initial_node p))) (sequence_actions res) = Inr (State s) \<and>
             is_goal_state s"
proof -
  from iterative_deepening_solution [OF assms] obtain n where n:
    "derived p n" "is_goal_state (state n)" "sequence_actions res = path_actions n" by blast
  from derived_replay [OF n(1)] n(2,3) show ?thesis by auto
qed

section \<open>Iterative deepening on concrete worlds\<close>

lemma blocked_dls_0:
  "depth_limited_search (IDPlayer_problem blocked_world [East, West]) 0 pl =
     (Inr Cutoff, pl\<lparr>id_counter := id_counter pl + 1, total_counter := total_counter pl + 1,
                      printed := printed pl @ [LimitDepth 0]\<rparr>)"
  by (simp add: blocked_eval)

lemma blocked_dls_1:
  "depth_limited_search (IDPlayer_problem blocked_world [East, West]) (Suc 0) pl =
     (Inr Cutoff, pl\<lparr>id_counter := id_counter pl + 2, total_counter := total_counter pl + 2,
                      printed := printed pl @ [LimitDepth 1]\<rparr>)"
  by (simp add: blocked_eval)

lemma blocked_dls_2:
  "depth_limited_search (IDPlayer_problem blocked_world [East, West]) 2 pl =
     (Inr Cutoff, pl\<lparr>id_counter := id_counter pl + 3, total_counter := total_counter pl + 3,
                      printed := printed pl @ [LimitDepth 2]\<rparr>)"
  by (simp add: blocked_eval numeral_2_eq_2)

lemma blocked_range:
  "range (free_cells (IDPlayer_problem blocked_world [East, West])) = [0, Suc 0, 2]"
  by (simp add: range_def free_cells_def IDPlayer_problem_def HungryMonkeyProblem_init_def
        blocked_world_def upt_rec numeral_eq_Suc)

lemma blocked_ids_run:
  "iterative_deepening_search (IDPlayer_problem blocked_world [East, West]) new_player =
     (Inr Cutoff,
      \<lparr>id_counter = 0, total_counter = 6,
        printed = [LimitDepth 0, NodesExplored 1, LimitDepth 1, NodesExplored 2,
                   LimitDepth 2, NodesExplored 3]\<rparr>)"
  by (simp add: iterative_deepening_search_def blocked_range blocked_dls_0 blocked_dls_1
        blocked_dls_2 new_player_def)

theorem ids_tries_at_most_k_depths_witness:
  "0 < free_cells (IDPlayer_problem blocked_world [East, West]) \<and>
   nat (free_cells (IDPlayer_problem blocked_world [East, West])) = 3 \<and>
   iterative_deepening_search (IDPlayer_problem blocked_world [East, West]) new_player =
     (Inr Cutoff,
      \<lparr>id_counter = 0, total_counter = 6,
        printed = [LimitDepth 0, NodesExplored 1, LimitDepth 1, NodesExplored 2,
                   LimitDepth 2, NodesExplored 3]\<rparr>) \<and>
   limit_depths [LimitDepth 0, NodesExplored 1, LimitDepth 1, NodesExplored 2,
                 LimitDepth 2, NodesExplored 3] = limit_depths (printed new_player) @ [0 ..< 3]"
  using ids_tries_at_most_k_depths [of "IDPlayer_problem blocked_world [East, West]" new_player]
        blocked_ids_run
  by (simp add: free_cells_def IDPlayer_problem_def HungryMonkeyProblem_init_def
        blocked_world_def new_player_def upt_rec numeral_eq_Suc)

theorem ids_total_is_steps_and_rewards_witness:
  "iterative_deepening_search (IDPlayer_problem line_world [East, West]) new_player =
     (Inr (Solution \<lparr>sequence_actions = [East, East, East], total_reward = Finite 7\<rparr>),
      \<lparr>id_counter = 0, total_counter = 11,
        printed = [LimitDepth 0, NodesExplored 1, LimitDepth 1, NodesExplored 2,
                   LimitDepth 2, NodesExplored 4, LimitDepth 3, NodesExplored 4]\<rparr>) \<and>
   Finite 7 =
     Finite (int (length [East, East, East]) * step_cost (IDPlayer_problem line_world [East, West]) +
             int (card (set (banana_locations (IDPlayer_problem line_world [East, West])))) *
               banana_reward (IDPlayer_problem line_world [East, West]))"
  using ids_total_is_steps_and_rewards [OF line_ids_run, of line_world "[East, West]"]
        line_ids_run
  by (simp add: IDPlayer_problem_def HungryMonkeyProblem_init_def line_world_def)

section \<open>The priority queue keeps its items\<close>

lemma siftdown_loop_length:
  "length (siftdown_loop lt heap startpos pos newitem) = length heap"
proof (induction lt heap startpos pos newitem rule: siftdown_loop.induct)
  case (1 lt heap startpos pos newitem)
  show ?case
    by (subst siftdown_loop.simps) (simp add: Let_def "1.IH")
qed

lemma mset_update_swap:
  assumes "i < length xs" and "j < length xs" and "i \<noteq> j"
  shows "mset (xs[i := xs ! j, j := x]) = mset (xs[i := x])"
proof -
  let ?ls = "xs[i := x]"
  from assms have "mset (?ls[i := ?ls ! j, j := ?ls ! i]) = mset ?ls"
    by (intro mset_swap) simp_all
  with assms show ?thesis by simp
qed

lemma siftdown_loop_mset:
  "pos < length heap \<Longrightarrow>
   mset (siftdown_loop lt heap startpos pos newitem) = mset (heap[pos := newitem])"
proof (induction lt heap startpos pos newitem rule: siftdown_loop.induct)
  case (1 lt heap startpos pos newitem)
  let ?pp = "(pos - 1) div 2"
  show ?case
  proof (cases "startpos < pos \<and> lt newitem (heap ! ?pp)")
    case True
    then have pp: "?pp < pos" by auto
    with "1.prems" have ppl: "?pp < length heap" by simp
    from True have "siftdown_loop lt heap startpos pos newitem =
        siftdown_loop lt (heap[pos := heap ! ?pp]) startpos ?pp newitem"
      by (subst siftdown_loop.simps) (simp add: Let_def)
    also have "mset \<dots> = mset (heap[pos := heap ! ?pp, ?pp := newitem])"
      using True ppl by (intro "1.IH") simp_all
    also have "\<dots> = mset (heap[pos := newitem])"
      using "1.prems" ppl pp by (intro mset_update_swap) simp_all
    finally show ?thesis .
  next
    case False
    then show ?thesis
      by (subst siftdown_loop.simps) (auto simp: Let_def)
  qed
qed

lemma siftup_loop_unfold:
  "siftup_loop lt heap endpos pos =
     (if 2 * pos + 1 < endpos
      then siftup_loop lt
             (heap[pos := heap ! (if 2 * pos + 2 < endpos \<and>
                                     \<not> lt (heap ! (2 * pos + 1)) (heap ! (2 * pos + 2))
                                  then 2 * pos + 2 else 2 * pos + 1)])
             endpos
             (if 2 * pos + 2 < endpos \<and> \<not> lt (heap ! (2 * pos + 1)) (heap ! (2 * pos + 2))
              then 2 * pos + 2 else 2 * pos + 1)
      else (heap, pos))"
  by (subst siftup_loop.simps) (simp add: Let_def)

lemma siftup_loop_props:
  "pos < endpos \<Longrightarrow> endpos \<le> length heap \<Longrightarrow>
   siftup_loop lt heap endpos pos = (h', p') \<Longrightarrow>
   p' < endpos \<and> length h' = length heap \<and> mset (h'[p' := x]) = mset (heap[pos := x])"
proof (induction "endpos - pos" arbitrary: pos heap rule: less_induct)
  case less
  show ?case
  proof (cases "2 * pos + 1 < endpos")
    case False
    with less.prems show ?thesis
      by (subst (asm) siftup_loop_unfold) auto
  next
    case True
    define c where "c = (if 2 * pos + 2 < endpos \<and>
                            \<not> lt (heap ! (2 * pos + 1)) (heap ! (2 * pos + 2))
                         then 2 * pos + 2 else 2 * pos + 1)"
    have c: "c < endpos" "pos < c"
      using True by (auto simp: c_def)
    from True less.prems(3) have rec: "siftup_loop lt (heap[pos := heap ! c]) endpos c = (h', p')"
      by (subst (asm) siftup_loop_unfold) (simp add: c_def)
    have "p' < endpos \<and> length h' = length (heap[pos := heap ! c]) \<and>
          mset (h'[p' := x]) = mset (heap[pos := heap ! c, c := x])"
      using c less.prems(2) rec by (intro less.hyps) auto
    moreover have "mset (heap[pos := heap ! c, c := x]) = mset (heap[pos := x])"
      using c less.prems by (intro mset_update_swap) simp_all
    ultimately show ?thesis by simp
  qed
qed

lemma siftdown_mset:
  "pos < length heap \<Longrightarrow> mset (siftdown lt heap startpos pos) = mset heap"
  by (simp add: siftdown_def siftdown_loop_mset)

lemma heappush_mset: "mset (heappush lt heap item) = add_mset item (mset heap)"
  by (simp add: heappush_def siftdown_mset)

lemma siftup_mset:
  assumes "pos < length heap"
  shows "mset (siftup lt heap pos) = mset heap"
proof -
  obtain h' p' where r: "siftup_loop lt heap (length heap) pos = (h', p')"
    by (cases "siftup_loop lt heap (length heap) pos")
  from siftup_loop_props [OF assms _ r, of "heap ! pos"]
  have p: "p' < length heap" "length h' = length heap"
    "mset (h'[p' := heap ! pos]) = mset heap" by simp_all
  then have "mset (siftdown lt (h'[p' := heap ! pos]) pos p') = mset heap"
    by (simp add: siftdown_mset)
  with r show ?thesis by (simp add: siftup_def Let_def)
qed

lemma heappop_snoc:
  "heappop lt (ys @ [l]) =
     (if ys \<noteq> [] then Some (ys ! 0, siftup lt (ys[0 := l]) 0) else Some (l, []))"
  by (cases ys) (simp_all add: Let_def)

lemma heappop_mset:
  assumes "heappop lt heap = Some (x, rest)"
  shows "mset heap = add_mset x (mset rest)"
proof (cases heap rule: rev_cases)
  case Nil
  with assms show ?thesis by simp
next
  case (snoc ys l)
  show ?thesis
  proof (cases "ys = []")
    case True
    with snoc assms show ?thesis by (simp add: heappop_snoc)
  next
    case False
    with snoc assms have x: "x = ys ! 0" and rest: "rest = siftup lt (ys[0 := l]) 0"
      by (simp_all add: heappop_snoc)
    from False have len: "0 < length ys" by simp
    have "mset rest = mset (ys[0 := l])"
      unfolding rest using len by (intro siftup_mset) simp
    also have "\<dots> = add_mset l (mset ys - {#ys ! 0#})"
      using len by (simp add: mset_update)
    finally have "add_mset x (mset rest) = add_mset l (mset ys)"
      using len x by simp
    with snoc show ?thesis by simp
  qed
qed


section \<open>The cost-ordered searches return paths to goal states\<close>

lemma heappush_set: "set (heappush lt heap item) = insert item (set heap)"
proof -
  have "set_mset (mset (heappush lt heap item)) = set_mset (add_mset item (mset heap))"
    by (simp only: heappush_mset)
  then show ?thesis by simp
qed

lemma heappop_set:
  assumes "heappop lt heap = Some (x, rest)"
  shows "set heap = insert x (set rest)"
proof -
  have "set_mset (mset heap) = set_mset (add_mset x (mset rest))"
    by (simp only: heappop_mset [OF assms])
  then show ?thesis by simp
qed

lemma ucs_visit_inv:
  assumes "search_inv p s" and "derived p c"
  shows "search_inv p (ucs_visit s c)"
  using assms by (auto simp: search_inv_def ucs_visit_def Let_def heappush_set)

lemma astar_visit_inv:
  assumes "search_inv p s" and "derived p c"
  shows "search_inv p (astar_visit s c)"
  using assms by (auto simp: search_inv_def astar_visit_def Let_def heappush_set)

lemma foldl_ucs_visit_inv:
  "search_inv p s \<Longrightarrow> \<forall>c \<in> set cs. derived p c \<Longrightarrow> search_inv p (foldl ucs_visit s cs)"
  by (induction cs arbitrary: s) (simp_all add: ucs_visit_inv)

lemma foldl_astar_visit_inv:
  "search_inv p s \<Longrightarrow> \<forall>c \<in> set cs. derived p c \<Longrightarrow> search_inv p (foldl astar_visit s cs)"
  by (induction cs arbitrary: s) (simp_all add: astar_visit_inv)

lemma search_inv_pop:
  assumes "search_inv p s" and "heappop node_lt (frontier s) = Some (x, rest)"
  shows "derived p x" and "search_inv p (s\<lparr>frontier := rest\<rparr>)"
    and "search_inv p (s\<lparr>frontier := rest, counter := k\<rparr>)"
  using assms heappop_set [OF assms(2)] by (auto simp: search_inv_def)

lemma ucs_while_inv_aux:
  assumes "ucs_while p s = Some y"
  shows "search_inv p s \<longrightarrow> (\<forall>s'. y = Inr s' \<longrightarrow> search_inv p s')"
proof (rule ucs_while.raw_induct
         [OF _ assms,
          where P = "\<lambda>p s y. search_inv p s \<longrightarrow>
                                 (\<forall>s'. y = Inr s' \<longrightarrow> search_inv p s')"])
  fix f p s y
  assume IH: "\<And>p s y. f p s = Some y \<Longrightarrow>
                search_inv p s \<longrightarrow> (\<forall>s'. y = Inr s' \<longrightarrow> search_inv p s')"
    and eq: "(case heappop node_lt (frontier s) of
                None \<Rightarrow> Some (Inr s)
              | Some got \<Rightarrow>
                  if \<not> num_lt (path_cost (fst got)) (solution s)
                  then Some (Inr (s\<lparr>frontier := snd got\<rparr>))
                  else (case child_nodes p (fst got) of
                          Inl e \<Rightarrow> Some (Inl e)
                        | Inr cs \<Rightarrow> f p (foldl ucs_visit (s\<lparr>frontier := snd got\<rparr>) cs)))
           = Some y"
  show "search_inv p s \<longrightarrow> (\<forall>s'. y = Inr s' \<longrightarrow> search_inv p s')"
  proof (intro impI allI)
    fix s'
    assume inv: "search_inv p s" and y: "y = Inr s'"
    show "search_inv p s'"
    proof (cases "heappop node_lt (frontier s)")
      case None
      with eq y inv show ?thesis by simp
    next
      case (Some got)
      obtain x rest where got: "got = (x, rest)" by (cases got)
      note pop = search_inv_pop [OF inv Some [unfolded got]]
      show ?thesis
      proof (cases "num_lt (path_cost x) (solution s)")
        case False
        with eq Some got y pop(2) show ?thesis by auto
      next
        case True
        from child_nodes_ok [of p x] obtain cs where cs: "child_nodes p x = Inr cs" by blast
        with pop(1) have "\<forall>c \<in> set cs. derived p c" by (blast intro: child_nodes_derived)
        with pop(2,3) have "search_inv p (foldl ucs_visit (s\<lparr>frontier := rest\<rparr>) cs)"
          by (intro foldl_ucs_visit_inv)
        moreover from eq Some got True cs
        have "f p (foldl ucs_visit (s\<lparr>frontier := rest\<rparr>) cs) = Some y"
          by simp
        ultimately show ?thesis using IH y by blast
      qed
    qed
  qed
qed

lemma ucs_while_inv:
  "ucs_while p s = Some (Inr s') \<Longrightarrow> search_inv p s \<Longrightarrow> search_inv p s'"
  using ucs_while_inv_aux [of p s "Inr s'"] by simp

lemma astar_while_inv_aux:
  assumes "astar_while p s = Some y"
  shows "search_inv p s \<longrightarrow> (\<forall>s'. y = Inr s' \<longrightarrow> search_inv p s')"
proof (rule astar_while.raw_induct
         [OF _ assms,
          where P = "\<lambda>p s y. search_inv p s \<longrightarrow>
                                 (\<forall>s'. y = Inr s' \<longrightarrow> search_inv p s')"])
  fix f p s y
  assume IH: "\<And>p s y. f p s = Some y \<Longrightarrow>
                search_inv p s \<longrightarrow> (\<forall>s'. y = Inr s' \<longrightarrow> search_inv p s')"
    and eq: "(case heappop node_lt (frontier s) of
                None \<Rightarrow> Some (Inr s)
              | Some got \<Rightarrow>
                  if \<not> num_lt (path_cost (fst got) + heuristic_cost (fst got)) (solution s)
                  then Some (Inr (s\<lparr>frontier := snd got\<rparr>))
                  else (case child_nodes p (fst got) of
                          Inl e \<Rightarrow> Some (Inl e)
                        | Inr cs \<Rightarrow>
                            f p (foldl astar_visit
                                   (s\<lparr>frontier := snd got, counter := counter s + 1\<rparr>) cs)))
           = Some y"
  show "search_inv p s \<longrightarrow> (\<forall>s'. y = Inr s' \<longrightarrow> search_inv p s')"
  proof (intro impI allI)
    fix s'
    assume inv: "search_inv p s" and y: "y = Inr s'"
    show "search_inv p s'"
    proof (cases "heappop node_lt (frontier s)")
      case None
      with eq y inv show ?thesis by simp
    next
      case (Some got)
      obtain x rest where got: "got = (x, rest)" by (cases got)
      note pop = search_inv_pop [OF inv Some [unfolded got]]
      show ?thesis
      proof (cases "num_lt (path_cost x + heuristic_cost x) (solution s)")
        case False
        with eq Some got y pop(2) show ?thesis by auto
      next
        case True
        from child_nodes_ok [of p x] obtain cs where cs: "child_nodes p x = Inr cs" by blast
        with pop(1) have "\<forall>c \<in> set cs. derived p c" by (blast intro: child_nodes_derived)
        with pop(2,3) have
          "search_inv p (foldl astar_visit (s\<lparr>frontier := rest, counter := counter s + 1\<rparr>) cs)"
          by (intro foldl_astar_visit_inv)
        moreover from eq Some got True cs
        have "f p (foldl astar_visit (s\<lparr>frontier := rest, counter := counter s + 1\<rparr>) cs)
                = Some y"
          by simp
        ultimately show ?thesis using IH y by blast
      qed
    qed
  qed
qed

lemma astar_while_inv:
  "astar_while p s = Some (Inr s') \<Longrightarrow> search_inv p s \<Longrightarrow> search_inv p s'"
  using astar_while_inv_aux [of p s "Inr s'"] by simp

lemma search_result_goal:
  assumes "search_result r = Some (Inr (res, cnt))"
      and "\<And>s. r = Some (Inr s) \<Longrightarrow> search_inv p s"
  shows "\<exists>n. derived p n \<and> is_goal_state (state n) \<and> sequence_actions res = path_actions n"
proof -
  from assms(1) obtain s acts where s: "r = Some (Inr s)"
    "unwrap_solution (solution_node s) = Inr acts" "sequence_actions res = acts"
    by (auto simp: search_result_def split: option.splits sum.splits)
  from s(2) obtain n where n: "solution_node s = Some n"
    by (cases "solution_node s") (simp_all add: unwrap_solution_def)
  with assms(2) [OF s(1)] have d: "derived p n" "is_goal_state (state n)"
    by (simp_all add: search_inv_def)
  with s n show ?thesis by (auto simp: derived_unwrap_solution)
qed

lemma initial_search_inv:
  "search_inv p \<lparr>frontier = heappush node_lt [] (initial_node p), reached = [],
                  solution = Infinity, solution_node = None, counter = k\<rparr>"
  by (simp add: search_inv_def heappush_set derived.root)

lemma path_replays_to_goal:
  assumes "derived p n" and "is_goal_state (state n)" and "sequence_actions res = path_actions n"
  shows "\<exists>s. replay p (State (state (initial_node p))) (sequence_actions res) = Inr (State s) \<and>
             is_goal_state s"
  using derived_replay [OF assms(1)] assms(2,3) by auto

lemma uniform_cost_search_goal:
  assumes "uniform_cost_search p cnt = Some (Inr (res, cnt'))"
  shows "\<exists>n. derived p n \<and> is_goal_state (state n) \<and> sequence_actions res = path_actions n"
proof (cases "is_goal_state (state (initial_node p))")
  case True
  with assms have "sequence_actions res = path_actions (initial_node p)"
    by (auto simp: uniform_cost_search_def initial_node_def new_node_def)
  with True derived.root [of p] show ?thesis by blast
next
  case False
  with assms show ?thesis
    by (auto simp: uniform_cost_search_def
             intro!: search_result_goal [where p = p]
             elim: ucs_while_inv [OF _ initial_search_inv])
qed

lemma astar_search_goal:
  assumes "astar_search p cnt = Some (Inr (res, cnt'))"
  shows "\<exists>n. derived p n \<and> is_goal_state (state n) \<and> sequence_actions res = path_actions n"
proof (cases "is_goal_state (state (initial_node p))")
  case True
  with assms have "sequence_actions res = path_actions (initial_node p)"
    by (auto simp: astar_search_def initial_node_def new_node_def)
  with True derived.root [of p] show ?thesis by blast
next
  case False
  with assms show ?thesis
    by (auto simp: astar_search_def
             intro!: search_result_goal [where p = p]
             elim: astar_while_inv [OF _ initial_search_inv])
qed

lemma line_replay:
  assumes "map_size p = (4, 1)" "block_locations p = []" "possible_actions p = [East, West]"
      and "initial_location p = (0, 0)" "banana_locations p = [(3, 0)]"
  shows "replay p (State (state (initial_node p))) [East, East, East] =
           Inr (State \<lparr>current_location = (3, 0), remaining_bananas = PyList []\<rparr>)"
  using assms
  by (simp add: successor_def available_actions_for_def move_def is_inside_grid_map_def
        West_def East_def initial_node_def new_node_def)

section \<open>The priority queue keeps its items in heap order\<close>

lemma weak_orderD:
  assumes "weak_order lt"
  shows "lt a b \<Longrightarrow> \<not> lt b a" and "\<not> lt b a \<Longrightarrow> \<not> lt c b \<Longrightarrow> \<not> lt c a"
  using assms unfolding weak_order_def by blast+

lemma siftdown_loop_heap_ok:
  assumes wo: "weak_order lt"
  shows "pos < length heap \<Longrightarrow> hole_ok lt heap pos \<Longrightarrow>
         (\<forall>i \<in> {1 ..< length heap}. (i - 1) div 2 = pos \<longrightarrow> \<not> lt (heap ! i) newitem) \<Longrightarrow>
         heap_ok lt (siftdown_loop lt heap 0 pos newitem)"
proof (induction pos arbitrary: heap rule: less_induct)
  case (less pos)
  let ?pp = "(pos - 1) div 2"
  note hole = less.prems(2) [unfolded hole_ok_def, rule_format]
  note kids = less.prems(3) [rule_format]
  show ?case
  proof (cases "0 < pos \<and> lt newitem (heap ! ?pp)")
    case True
    then have pp: "?pp < pos" by auto
    let ?h = "heap[pos := heap ! ?pp]"
    have unfold: "siftdown_loop lt heap 0 pos newitem = siftdown_loop lt ?h 0 ?pp newitem"
      using True by (subst siftdown_loop.simps) (simp add: Let_def)
    have len: "length ?h = length heap" by simp
    have up: "\<not> lt (heap ! ?pp) newitem"
      using True weak_orderD(1) [OF wo] by blast
    have "hole_ok lt ?h ?pp"
      unfolding hole_ok_def
    proof (intro ballI conjI impI)
      fix i assume i: "i \<in> {1 ..< length ?h}"
      then have il: "i \<in> {1 ..< length heap}" by simp
      {
        assume a: "i \<noteq> ?pp \<and> (i - 1) div 2 \<noteq> ?pp"
        show "\<not> lt (?h ! i) (?h ! ((i - 1) div 2))"
        proof (cases "(i - 1) div 2 = pos")
          case True
          with il a pp less.prems(1) hole [of i] \<open>0 < pos \<and> lt newitem (heap ! ?pp)\<close>
          show ?thesis by auto
        next
          case False
          have "i \<noteq> pos" using a pp by auto
          with False il hole [of i] show ?thesis by auto
        qed
      }
      {
        assume a: "(i - 1) div 2 = ?pp \<and> 0 < ?pp"
        have ppp: "(?pp - 1) div 2 \<noteq> pos" using pp by auto
        have e1: "\<not> lt (heap ! ?pp) (heap ! ((?pp - 1) div 2))"
          using hole [of ?pp] a pp less.prems(1) by auto
        show "\<not> lt (?h ! i) (?h ! ((?pp - 1) div 2))"
        proof (cases "i = pos")
          case True
          with e1 ppp less.prems(1) show ?thesis by simp
        next
          case False
          with a il hole [of i] pp have "\<not> lt (heap ! i) (heap ! ?pp)" by auto
          from weak_orderD(2) [OF wo e1 this] False ppp show ?thesis by simp
        qed
      }
    qed
    moreover have "\<forall>i \<in> {1 ..< length ?h}. (i - 1) div 2 = ?pp \<longrightarrow> \<not> lt (?h ! i) newitem"
    proof (intro ballI impI)
      fix i assume i: "i \<in> {1 ..< length ?h}" and p: "(i - 1) div 2 = ?pp"
      show "\<not> lt (?h ! i) newitem"
      proof (cases "i = pos")
        case True
        with up less.prems(1) show ?thesis by simp
      next
        case False
        with i p hole [of i] pp have "\<not> lt (heap ! i) (heap ! ?pp)" by auto
        from weak_orderD(2) [OF wo up this] False show ?thesis by simp
      qed
    qed
    ultimately have "heap_ok lt (siftdown_loop lt ?h 0 ?pp newitem)"
      using pp less.prems(1) by (intro less.IH) simp_all
    with unfold show ?thesis by simp
  next
    case False
    then have res: "siftdown_loop lt heap 0 pos newitem = heap[pos := newitem]"
      by (subst siftdown_loop.simps) (auto simp: Let_def)
    have "heap_ok lt (heap[pos := newitem])"
      unfolding heap_ok_def
    proof (intro ballI)
      fix i assume i: "i \<in> {1 ..< length (heap[pos := newitem])}"
      then have il: "i \<in> {1 ..< length heap}" by simp
      then have lt_i: "(i - 1) div 2 < i" by auto
      show "\<not> lt (heap[pos := newitem] ! i) (heap[pos := newitem] ! ((i - 1) div 2))"
      proof (cases "i = pos")
        case True
        with False il lt_i less.prems(1) show ?thesis by auto
      next
        case np: False
        show ?thesis
        proof (cases "(i - 1) div 2 = pos")
          case True
          with np il kids [of i] less.prems(1) show ?thesis by simp
        next
          case False
          with np il hole [of i] show ?thesis by simp
        qed
      qed
    qed
    with res show ?thesis by simp
  qed
qed


lemma siftup_loop_hole:
  assumes wo: "weak_order lt"
  shows "pos < length heap \<Longrightarrow> hole_ok lt heap pos \<Longrightarrow>
         siftup_loop lt heap (length heap) pos = (h', p') \<Longrightarrow>
         length h' = length heap \<and> p' < length heap \<and> hole_ok lt h' p' \<and>
         (\<forall>i \<in> {1 ..< length heap}. (i - 1) div 2 \<noteq> p')"
proof (induction "length heap - pos" arbitrary: pos heap rule: less_induct)
  case less
  note hole = less.prems(2) [unfolded hole_ok_def, rule_format]
  show ?case
  proof (cases "2 * pos + 1 < length heap")
    case False
    with less.prems(3) have r: "h' = heap" "p' = pos"
      by (subst (asm) siftup_loop_unfold, simp)+
    have "\<forall>i \<in> {1 ..< length heap}. (i - 1) div 2 \<noteq> pos"
      using False by auto
    with r less.prems show ?thesis by simp
  next
    case True
    define c where "c = (if 2 * pos + 2 < length heap \<and>
                            \<not> lt (heap ! (2 * pos + 1)) (heap ! (2 * pos + 2))
                         then 2 * pos + 2 else 2 * pos + 1)"
    have c: "c < length heap" "pos < c" "(c - 1) div 2 = pos" "0 < c"
      using True by (auto simp: c_def)
    let ?h = "heap[pos := heap ! c]"
    from True less.prems(3) have rec: "siftup_loop lt ?h (length ?h) c = (h', p')"
      by (subst (asm) siftup_loop_unfold) (simp add: c_def)
    have sib: "\<not> lt (heap ! i) (heap ! c)"
      if "i \<in> {1 ..< length heap}" "(i - 1) div 2 = pos" "i \<noteq> c" for i
    proof -
      from that have "i = 2 * pos + 1 \<or> i = 2 * pos + 2" by auto
      then show ?thesis
      proof
        assume i: "i = 2 * pos + 1"
        with that(3) have "c = 2 * pos + 2" by (auto simp: c_def split: if_splits)
        then have "\<not> lt (heap ! (2 * pos + 1)) (heap ! (2 * pos + 2))"
          by (auto simp: c_def split: if_splits)
        with i \<open>c = 2 * pos + 2\<close> show ?thesis by simp
      next
        assume i: "i = 2 * pos + 2"
        with that(3) have cl: "c = 2 * pos + 1" by (auto simp: c_def split: if_splits)
        with i that(1) have "lt (heap ! (2 * pos + 1)) (heap ! (2 * pos + 2))"
          by (auto simp: c_def split: if_splits)
        from weak_orderD(1) [OF wo this] i cl show ?thesis by simp
      qed
    qed
    have "hole_ok lt ?h c"
      unfolding hole_ok_def
    proof (intro ballI conjI impI)
      fix i assume i: "i \<in> {1 ..< length ?h}"
      then have il: "i \<in> {1 ..< length heap}" by simp
      {
        assume a: "i \<noteq> c \<and> (i - 1) div 2 \<noteq> c"
        show "\<not> lt (?h ! i) (?h ! ((i - 1) div 2))"
        proof (cases "i = pos")
          case True
          with il have "0 < pos" by simp
          with hole [of c] c have "\<not> lt (heap ! c) (heap ! ((pos - 1) div 2))" by auto
          moreover from True il have "(i - 1) div 2 \<noteq> pos" by auto
          ultimately show ?thesis using True less.prems(1) by simp
        next
          case np: False
          show ?thesis
          proof (cases "(i - 1) div 2 = pos")
            case True
            with sib [of i] il a np less.prems(1) show ?thesis by simp
          next
            case False
            with np il hole [of i] show ?thesis by simp
          qed
        qed
      }
      {
        assume a: "(i - 1) div 2 = c \<and> 0 < c"
        then have "i \<noteq> pos" "(i - 1) div 2 \<noteq> pos" using c(2) il by auto
        with il hole [of i] a have "\<not> lt (heap ! i) (heap ! c)" by auto
        with \<open>i \<noteq> pos\<close> c(3) less.prems(1) show "\<not> lt (?h ! i) (?h ! ((c - 1) div 2))"
          by simp
      }
    qed
    with c rec have "length h' = length ?h \<and> p' < length ?h \<and> hole_ok lt h' p' \<and>
         (\<forall>i \<in> {1 ..< length ?h}. (i - 1) div 2 \<noteq> p')"
      by (intro less.hyps) auto
    then show ?thesis by simp
  qed
qed

lemma hole_ok_leaf_update:
  assumes "hole_ok lt heap pos" and "\<forall>i \<in> {1 ..< length heap}. (i - 1) div 2 \<noteq> pos"
  shows "hole_ok lt (heap[pos := x]) pos"
  using assms unfolding hole_ok_def by auto

lemma heap_ok_hole:
  assumes "heap_ok lt heap"
  shows "hole_ok lt (heap @ [x]) (length heap)"
  unfolding hole_ok_def
proof (intro ballI conjI impI)
  fix i assume i: "i \<in> {1 ..< length (heap @ [x])}"
  then have p: "(i - 1) div 2 < i" by auto
  {
    assume "i \<noteq> length heap \<and> (i - 1) div 2 \<noteq> length heap"
    with i p have "i \<in> {1 ..< length heap}" "(i - 1) div 2 < length heap" by auto
    with assms show "\<not> lt ((heap @ [x]) ! i) ((heap @ [x]) ! ((i - 1) div 2))"
      by (simp add: heap_ok_def nth_append)
  }
  {
    assume "(i - 1) div 2 = length heap \<and> 0 < length heap"
    with i p have False by auto
    then show "\<not> lt ((heap @ [x]) ! i) ((heap @ [x]) ! ((length heap - 1) div 2))" ..
  }
qed

lemma heappush_heap_ok:
  assumes "weak_order lt" and "heap_ok lt heap"
  shows "heap_ok lt (heappush lt heap x)"
proof -
  have "heap_ok lt (siftdown_loop lt (heap @ [x]) 0 (length heap) x)"
  proof (rule siftdown_loop_heap_ok [OF assms(1)])
    show "length heap < length (heap @ [x])" by simp
    show "hole_ok lt (heap @ [x]) (length heap)" by (rule heap_ok_hole [OF assms(2)])
    show "\<forall>i \<in> {1 ..< length (heap @ [x])}. (i - 1) div 2 = length heap \<longrightarrow>
            \<not> lt ((heap @ [x]) ! i) x"
      by auto
  qed
  then show ?thesis by (simp add: heappush_def siftdown_def)
qed

lemma heap_ok_root_min:
  assumes wo: "weak_order lt" and ok: "heap_ok lt heap"
  shows "i < length heap \<Longrightarrow> \<not> lt (heap ! i) (heap ! 0)"
proof (induction i rule: less_induct)
  case (less i)
  show ?case
  proof (cases "i = 0")
    case True
    with weak_orderD(1) [OF wo] show ?thesis by blast
  next
    case False
    with less.prems ok have e: "\<not> lt (heap ! i) (heap ! ((i - 1) div 2))"
      by (simp add: heap_ok_def)
    from False have "(i - 1) div 2 < i" by auto
    with less.prems have "\<not> lt (heap ! ((i - 1) div 2)) (heap ! 0)"
      by (intro less.IH) auto
    from weak_orderD(2) [OF wo this e] show ?thesis .
  qed
qed

lemma heappop_heap_ok:
  assumes wo: "weak_order lt" and ok: "heap_ok lt heap"
      and pop: "heappop lt heap = Some (x, rest)"
  shows "heap_ok lt rest" and "\<forall>y \<in> set heap. \<not> lt y x"
proof -
  from pop obtain ys l where snoc: "heap = ys @ [l]"
    by (cases heap rule: rev_cases) auto
  have "heap_ok lt rest \<and> (\<forall>y \<in> set heap. \<not> lt y x)"
  proof (cases "ys = []")
    case True
    with snoc pop have "x = l" "rest = []" by (simp_all add: heappop_snoc)
    with True snoc weak_orderD(1) [OF wo] show ?thesis
      by (auto simp: heap_ok_def)
  next
    case False
    with snoc pop have x: "x = ys ! 0" and rest: "rest = siftup lt (ys[0 := l]) 0"
      by (simp_all add: heappop_snoc)
    from False have len: "0 < length ys" by simp
    have min: "\<forall>y \<in> set heap. \<not> lt y x"
    proof
      fix y assume "y \<in> set heap"
      then obtain i where i: "i < length heap" "y = heap ! i" by (auto simp: in_set_conv_nth)
      from heap_ok_root_min [OF wo ok i(1)] i(2) x snoc len show "\<not> lt y x"
        by (simp add: nth_append)
    qed
    let ?h = "ys[0 := l]"
    obtain h' p' where r: "siftup_loop lt ?h (length ?h) 0 = (h', p')"
      by (cases "siftup_loop lt ?h (length ?h) 0")
    have "hole_ok lt ?h 0"
      unfolding hole_ok_def
    proof (intro ballI conjI impI)
      fix i assume i: "i \<in> {1 ..< length ?h}"
      {
        assume a: "i \<noteq> 0 \<and> (i - 1) div 2 \<noteq> 0"
        from i have "i \<in> {1 ..< length heap}" "(i - 1) div 2 < length ys" "i < length ys"
          using snoc by auto
        moreover from ok have "\<not> lt (heap ! i) (heap ! ((i - 1) div 2))"
          if "i \<in> {1 ..< length heap}" using that unfolding heap_ok_def by blast
        ultimately have "\<not> lt (ys ! i) (ys ! ((i - 1) div 2))"
          using snoc by (simp add: nth_append)
        with a show "\<not> lt (?h ! i) (?h ! ((i - 1) div 2))" by simp
      }
      {
        assume "(i - 1) div 2 = 0 \<and> (0::nat) < 0"
        then show "\<not> lt (?h ! i) (?h ! ((0 - 1) div 2))" by simp
      }
    qed
    from siftup_loop_hole [OF wo _ this r] len
    have p: "length h' = length ?h" "p' < length ?h" "hole_ok lt h' p'"
      "\<forall>i \<in> {1 ..< length ?h}. (i - 1) div 2 \<noteq> p'" by simp_all
    have "heap_ok lt (siftdown_loop lt (h'[p' := l]) 0 p' l)"
    proof (rule siftdown_loop_heap_ok [OF wo])
      show "p' < length (h'[p' := l])" using p by simp
      show "hole_ok lt (h'[p' := l]) p'"
        using p by (intro hole_ok_leaf_update) simp_all
      show "\<forall>i \<in> {1 ..< length (h'[p' := l])}. (i - 1) div 2 = p' \<longrightarrow>
              \<not> lt (h'[p' := l] ! i) l"
        using p by simp
    qed
    moreover have "rest = siftdown_loop lt (h'[p' := l]) 0 p' l"
      using r p len by (simp add: rest siftup_def siftdown_def Let_def)
    ultimately show ?thesis using min by simp
  qed
  then show "heap_ok lt rest" and "\<forall>y \<in> set heap. \<not> lt y x" by simp_all
qed

lemma node_lt_weak_order: "weak_order node_lt"
  unfolding weak_order_def node_lt_def by (auto split: if_splits)

section \<open>Uniform-cost search with the default costs\<close>

lemma node_in_dict_get:
  "node_in c (map fst d) \<Longrightarrow> \<exists>v. dict_get d c = Some v \<and> v \<in> snd ` set d"
proof (induction d)
  case (Cons kv d)
  obtain k v where kv: "kv = (k, v)" by (cases kv)
  show ?case
  proof (cases "node_eq k c")
    case True
    with kv show ?thesis by simp
  next
    case False
    with Cons.prems kv have "node_in c (map fst d)" by (simp add: node_in_def)
    from Cons.IH [OF this] False kv show ?thesis by auto
  qed
qed (simp add: node_in_def)

lemma dict_set_values:
  "kv \<in> set (dict_set d c v) \<Longrightarrow> snd kv = v \<or> kv \<in> set d"
  by (induction d) (auto split: if_splits)

lemma line_inv_mono:
  assumes "line_inv m s" and "m' \<le> m"
  shows "line_inv m' s"
proof -
  from assms have "num_lt m' (solution s)"
    by (cases "solution s") (auto simp: line_inv_def)
  with assms show ?thesis by (fastforce simp: line_inv_def)
qed

lemma mobile_not_goal: "mobile c \<Longrightarrow> \<not> is_goal_state (state c)"
  by (simp add: mobile_def is_goal_state_def)

lemma line_inv_push:
  assumes inv: "line_inv m s"
      and c: "(mobile c \<and> m \<le> path_cost c) \<or> (goal_node c \<and> m < path_cost c)"
      and fr: "frontier s' = heappush node_lt (frontier s) c"
      and re: "reached s' = dict_set (reached s) c (path_cost c)"
      and so: "solution s' = (if is_goal_state (state c) \<and> num_lt (path_cost c) (solution s)
                              then Finite (path_cost c) else solution s)"
  shows "line_inv m s'"
proof -
  define sol where "sol = solution s'"
  note sol = so [folded sol_def]
  have le: "\<not> num_lt k sol" if "\<not> num_lt k (solution s)" for k
    using that sol by (cases "solution s") (auto split: if_splits)
  have "heap_ok node_lt (heappush node_lt (frontier s) c)"
    using inv by (intro heappush_heap_ok node_lt_weak_order) (simp add: line_inv_def)
  moreover have "mobile n \<or> (goal_node n \<and> \<not> num_lt (path_cost n) sol)"
    if "n \<in> set (heappush node_lt (frontier s) c)" for n
  proof (cases "n = c")
    case True
    show ?thesis
    proof (cases "mobile c")
      case True
      with \<open>n = c\<close> show ?thesis by simp
    next
      case False
      with c have g: "goal_node c" by blast
      then have "\<not> num_lt (path_cost c) sol"
        using sol by (cases "solution s") (auto simp: goal_node_def)
      with g \<open>n = c\<close> show ?thesis by simp
    qed
  next
    case False
    with that have "n \<in> set (frontier s)" by (simp add: heappush_set)
    with inv have "mobile n \<or> (goal_node n \<and> \<not> num_lt (path_cost n) (solution s))"
      by (simp add: line_inv_def)
    with le show ?thesis by blast
  qed
  moreover have "num_lt m sol"
  proof (cases "is_goal_state (state c) \<and> num_lt (path_cost c) (solution s)")
    case True
    with c mobile_not_goal have "m < path_cost c" by blast
    with True sol show ?thesis by simp
  next
    case False
    with sol inv show ?thesis by (auto simp: line_inv_def)
  qed
  moreover have "m \<le> snd kv" if "kv \<in> set (dict_set (reached s) c (path_cost c))" for kv
  proof -
    from dict_set_values [OF that] have "snd kv = path_cost c \<or> kv \<in> set (reached s)" .
    with inv c show ?thesis by (auto simp: line_inv_def)
  qed
  ultimately show ?thesis by (simp add: line_inv_def fr re sol_def)
qed

lemma ucs_visit_cases:
  "ucs_visit s c = s\<lparr>counter := counter s + 1\<rparr> \<or>
   ucs_visit s c =
     s\<lparr>counter := counter s + 1,
       reached := dict_set (reached s) c (path_cost c),
       frontier := heappush node_lt (frontier s) c,
       solution := (if is_goal_state (state c) \<and> num_lt (path_cost c) (solution s)
                    then Finite (path_cost c) else solution s),
       solution_node := (if is_goal_state (state c) \<and> num_lt (path_cost c) (solution s)
                         then Some c else solution_node s)\<rparr>"
  by (simp add: ucs_visit_def Let_def)

lemma line_inv_counter: "line_inv m (s\<lparr>counter := k\<rparr>) = line_inv m s"
  by (simp add: line_inv_def)

lemma line_inv_visit:
  assumes inv: "line_inv m s"
      and c: "(mobile c \<and> m \<le> path_cost c) \<or> (goal_node c \<and> m < path_cost c)"
  shows "line_inv m (ucs_visit s c)"
proof -
  from ucs_visit_cases [of s c] show ?thesis
  proof
    assume "ucs_visit s c = s\<lparr>counter := counter s + 1\<rparr>"
    with inv show ?thesis by (simp add: line_inv_counter)
  next
    assume e: "ucs_visit s c =
     s\<lparr>counter := counter s + 1,
       reached := dict_set (reached s) c (path_cost c),
       frontier := heappush node_lt (frontier s) c,
       solution := (if is_goal_state (state c) \<and> num_lt (path_cost c) (solution s)
                    then Finite (path_cost c) else solution s),
       solution_node := (if is_goal_state (state c) \<and> num_lt (path_cost c) (solution s)
                         then Some c else solution_node s)\<rparr>"
    show ?thesis
    proof (rule line_inv_push [OF inv c])
      show "frontier (ucs_visit s c) = heappush node_lt (frontier s) c"
        by (simp add: e)
      show "reached (ucs_visit s c) = dict_set (reached s) c (path_cost c)"
        by (simp add: e)
      show "solution (ucs_visit s c) =
              (if is_goal_state (state c) \<and> num_lt (path_cost c) (solution s)
               then Finite (path_cost c) else solution s)"
        by (simp add: e)
    qed
  qed
qed

lemma frontier_visit: "set (frontier s) \<subseteq> set (frontier (ucs_visit s c))"
  using ucs_visit_cases [of s c] by (auto simp: heappush_set)

lemma mobile_visit_pushed:
  assumes inv: "line_inv m s" and c: "mobile c" "path_cost c < m"
  shows "c \<in> set (frontier (ucs_visit s c))"
proof -
  have "\<not> node_in c (map fst (reached s)) \<or>
        (case dict_get (reached s) c of None \<Rightarrow> False | Some v \<Rightarrow> path_cost c < v)"
  proof (cases "node_in c (map fst (reached s))")
    case True
    from node_in_dict_get [OF this] obtain kv
      where kv: "kv \<in> set (reached s)" "dict_get (reached s) c = Some (snd kv)" by auto
    with inv have "m \<le> snd kv" by (simp add: line_inv_def)
    with kv c show ?thesis by simp
  qed simp
  then show ?thesis by (simp add: ucs_visit_def Let_def heappush_set)
qed

lemma foldl_visit_keep:
  "line_inv m s \<Longrightarrow> w \<in> set (frontier s) \<Longrightarrow>
   \<forall>c \<in> set cs. (mobile c \<and> m \<le> path_cost c) \<or> (goal_node c \<and> m < path_cost c) \<Longrightarrow>
   line_inv m (foldl ucs_visit s cs) \<and> w \<in> set (frontier (foldl ucs_visit s cs))"
proof (induction cs arbitrary: s)
  case (Cons c cs)
  from Cons.prems have "line_inv m (ucs_visit s c)" by (intro line_inv_visit) simp_all
  moreover from Cons.prems(2) frontier_visit have "w \<in> set (frontier (ucs_visit s c))" by blast
  ultimately show ?case using Cons.prems(3) Cons.IH by simp
qed simp

lemma foldl_visit_diverging:
  "line_inv m s \<Longrightarrow>
   \<forall>c \<in> set cs. (mobile c \<and> path_cost c = m - 1) \<or> (goal_node c \<and> path_cost c = m + 9) \<Longrightarrow>
   \<exists>c \<in> set cs. mobile c \<Longrightarrow>
   diverging (foldl ucs_visit s cs)"
proof (induction cs arbitrary: s)
  case (Cons c cs)
  show ?case
  proof (cases "mobile c")
    case True
    with Cons.prems(2) mobile_not_goal have pc: "path_cost c = m - 1"
      by (auto simp: goal_node_def)
    from Cons.prems(1) have "line_inv (m - 1) s" by (rule line_inv_mono) simp
    with True pc have "line_inv (m - 1) (ucs_visit s c)" by (intro line_inv_visit) simp_all
    moreover have "c \<in> set (frontier (ucs_visit s c))"
      by (rule mobile_visit_pushed [OF Cons.prems(1) True]) (simp add: pc)
    moreover from Cons.prems(2)
    have "\<forall>c \<in> set cs. (mobile c \<and> m - 1 \<le> path_cost c) \<or> (goal_node c \<and> m - 1 < path_cost c)"
      by auto
    ultimately have "line_inv (m - 1) (foldl ucs_visit (ucs_visit s c) cs) \<and>
                     c \<in> set (frontier (foldl ucs_visit (ucs_visit s c) cs))"
      by (rule foldl_visit_keep)
    with True pc show ?thesis by (auto simp: diverging_def)
  next
    case False
    with Cons.prems(2) have "goal_node c \<and> m < path_cost c" by auto
    with Cons.prems(1) have "line_inv m (ucs_visit s c)" by (intro line_inv_visit) simp_all
    moreover from False Cons.prems(3) have "\<exists>c \<in> set cs. mobile c" by auto
    ultimately have "diverging (foldl ucs_visit (ucs_visit s c) cs)"
      using Cons.prems(2) by (intro Cons.IH) simp_all
    then show ?thesis by simp
  qed
qed simp

lemma mobile_children:
  assumes "mobile x"
  shows "\<exists>cs. child_nodes line_problem x = Inr cs \<and>
           (\<forall>c \<in> set cs. (mobile c \<and> path_cost c = path_cost x - 1) \<or>
                          (goal_node c \<and> path_cost c = path_cost x + 9)) \<and>
           (\<exists>c \<in> set cs. mobile c)"
proof -
  obtain st c pa par h where x: "x = Node st c pa par h" by (cases x)
  from assms x have b: "elements (remaining_bananas st) = [(3, 0)]"
    and loc: "current_location st = (0, 0) \<or> current_location st = (1, 0) \<or>
              current_location st = (2, 0)"
    by (simp_all add: mobile_def)
  from loc show ?thesis
    by (elim disjE)
       (simp_all add: x b child_nodes_def available_actions_for_def line_problem_def
          HungryMonkeyProblem_init_def line_world_def East_def West_def move_def
          is_inside_grid_map_def child_node_def successor_def py_in_def Let_def
          mobile_def goal_node_def is_goal_state_def new_node_def)
qed

lemma diverging_step:
  assumes d: "diverging s" and pop: "heappop node_lt (frontier s) = Some (x, rest)"
  shows "num_lt (path_cost x) (solution s) \<and>
         (\<exists>cs. child_nodes line_problem x = Inr cs \<and>
               diverging (foldl ucs_visit (s\<lparr>frontier := rest\<rparr>) cs))"
proof -
  from d obtain w where w: "w \<in> set (frontier s)" "mobile w" "line_inv (path_cost w) s"
    by (auto simp: diverging_def)
  then have ok: "heap_ok node_lt (frontier s)" by (simp add: line_inv_def)
  note hp = heappop_heap_ok [OF node_lt_weak_order ok pop]
  from heappop_set [OF pop] have fs: "set (frontier s) = insert x (set rest)" .
  from hp(2) w(1) have nlt: "\<not> node_lt w x" by blast
  from w(3) have wsol: "num_lt (path_cost w) (solution s)" by (simp add: line_inv_def)
  from fs w(3) have xg: "mobile x \<or> (goal_node x \<and> \<not> num_lt (path_cost x) (solution s))"
    by (simp add: line_inv_def)
  have mx: "mobile x"
  proof (rule ccontr)
    assume "\<not> mobile x"
    with xg have g: "goal_node x" "\<not> num_lt (path_cost x) (solution s)" by simp_all
    with wsol have "path_cost w < path_cost x" by (cases "solution s") auto
    with g(1) w(2) have "node_lt w x" by (simp add: node_lt_def goal_node_def mobile_def)
    with nlt show False ..
  qed
  with w(2) nlt have le: "path_cost x \<le> path_cost w"
    by (auto simp: node_lt_def mobile_def py_len_def split: if_splits)
  with wsol have xsol: "num_lt (path_cost x) (solution s)" by (cases "solution s") auto
  from w(3) le have "line_inv (path_cost x) s" by (rule line_inv_mono)
  with hp(1) fs have inv: "line_inv (path_cost x) (s\<lparr>frontier := rest\<rparr>)"
    by (simp add: line_inv_def)
  from mobile_children [OF mx] obtain cs where cs: "child_nodes line_problem x = Inr cs"
    "\<forall>c \<in> set cs. (mobile c \<and> path_cost c = path_cost x - 1) \<or>
                   (goal_node c \<and> path_cost c = path_cost x + 9)"
    "\<exists>c \<in> set cs. mobile c" by blast
  from foldl_visit_diverging [OF inv cs(2,3)] cs(1) xsol show ?thesis by blast
qed

lemma diverging_nonempty: "diverging s \<Longrightarrow> heappop node_lt (frontier s) \<noteq> None"
  by (cases "frontier s") (auto simp: diverging_def Let_def)

lemma ucs_while_diverging_aux:
  assumes "ucs_while p s = Some y"
  shows "p = line_problem \<longrightarrow> \<not> diverging s"
proof (rule ucs_while.raw_induct
         [OF _ assms, where P = "\<lambda>p s y. p = line_problem \<longrightarrow> \<not> diverging s"])
  fix f p s y
  assume IH: "\<And>p s y. f p s = Some y \<Longrightarrow> p = line_problem \<longrightarrow> \<not> diverging s"
    and eq: "(case heappop node_lt (frontier s) of
                None \<Rightarrow> Some (Inr s)
              | Some got \<Rightarrow>
                  if \<not> num_lt (path_cost (fst got)) (solution s)
                  then Some (Inr (s\<lparr>frontier := snd got\<rparr>))
                  else (case child_nodes p (fst got) of
                          Inl e \<Rightarrow> Some (Inl e)
                        | Inr cs \<Rightarrow> f p (foldl ucs_visit (s\<lparr>frontier := snd got\<rparr>) cs)))
           = Some y"
  show "p = line_problem \<longrightarrow> \<not> diverging s"
  proof (intro impI notI)
    assume p: "p = line_problem" and d: "diverging s"
    from diverging_nonempty [OF d] obtain x rest
      where pop: "heappop node_lt (frontier s) = Some (x, rest)" by auto
    from diverging_step [OF d pop] obtain cs where
      st: "num_lt (path_cost x) (solution s)" "child_nodes line_problem x = Inr cs"
          "diverging (foldl ucs_visit (s\<lparr>frontier := rest\<rparr>) cs)" by blast
    from eq pop st(1,2) p have "f p (foldl ucs_visit (s\<lparr>frontier := rest\<rparr>) cs) = Some y"
      by simp
    from IH [OF this] p st(3) show False by simp
  qed
qed

lemma line_problem_initial:
  "diverging \<lparr>frontier = heappush node_lt [] (initial_node line_problem), reached = [],
              solution = Infinity, solution_node = None, counter = k\<rparr>"
proof -
  have m: "mobile (initial_node line_problem)"
    by (simp add: mobile_def initial_node_def new_node_def line_problem_def
          HungryMonkeyProblem_init_def line_world_def)
  have "heap_ok node_lt (heappush node_lt [] (initial_node line_problem))"
    by (intro heappush_heap_ok node_lt_weak_order) (simp add: heap_ok_def)
  with m show ?thesis
    by (simp add: diverging_def line_inv_def heappush_set)
qed

lemma ucs_while_line_problem:
  "ucs_while line_problem
     \<lparr>frontier = heappush node_lt [] (initial_node line_problem), reached = [],
      solution = Infinity, solution_node = None, counter = k\<rparr> = None"
proof (rule ccontr)
  assume "\<not> ?thesis"
  then obtain y where "ucs_while line_problem
     \<lparr>frontier = heappush node_lt [] (initial_node line_problem), reached = [],
      solution = Infinity, solution_node = None, counter = k\<rparr> = Some y" by blast
  from ucs_while_diverging_aux [OF this] line_problem_initial show False by simp
qed

text \<open>
  C3, the claim as stated fails. With step cost -1 and banana reward 10 every step lowers
  the path cost, so the frontier always holds a node on the way that costs less than the
  solution found so far, and the loop of uniform-cost search is never left.
\<close>

theorem ucs_default_costs_never_returns:
  "uniform_cost_search line_problem 0 = None \<and>
   step_cost line_problem = - 1 \<and> banana_reward line_problem = 10"
proof -
  have "\<not> is_goal_state (state (initial_node line_problem))"
    by (simp add: is_goal_state_def initial_node_def new_node_def line_problem_def
          HungryMonkeyProblem_init_def line_world_def)
  then have "uniform_cost_search line_problem 0 = None"
    by (simp add: uniform_cost_search_def ucs_while_line_problem search_result_def)
  then show ?thesis
    by (simp add: line_problem_def HungryMonkeyProblem_init_def)
qed

section \<open>Iterative deepening finds a solution within its depth limits\<close>

lemma solves_Nil: "solves p s [] = is_goal_state s"
  by (simp add: solves_def)

lemma solves_Cons:
  "solves p s (a # as) =
     (a \<in> set (available_actions_for p s) \<and>
      (\<exists>s'. successor p s a = State s' \<and> solves p s' as))"
proof (cases "a \<in> set (available_actions_for p s)")
  case True
  from successor_available [OF True] obtain s' where "successor p s a = State s'" by blast
  with True show ?thesis by (simp add: solves_def)
next
  case False
  then have "successor p s a = Tuple (current_location s) (remaining_bananas s)"
    by (simp add: successor_def)
  with False show ?thesis by (cases as) (simp_all add: solves_def)
qed

lemma solves_replay:
  "solves p s as = (\<exists>g. replay p (State s) as = Inr (State g) \<and> is_goal_state g)"
  by (auto simp: solves_def split: sum.splits successor_value.splits)

lemma successor_sabs:
  assumes "sabs s = sabs t"
  shows "(a \<in> set (available_actions_for p s)) = (a \<in> set (available_actions_for p t))"
    and "a \<in> set (available_actions_for p s) \<Longrightarrow> successor p s a = successor p t a"
proof -
  from assms have e: "current_location s = current_location t"
    "elements (remaining_bananas s) = elements (remaining_bananas t)"
    by (simp_all add: sabs_def)
  then show av: "(a \<in> set (available_actions_for p s)) = (a \<in> set (available_actions_for p t))"
    by (simp add: available_actions_for_def)
  assume "a \<in> set (available_actions_for p s)"
  with av e show "successor p s a = successor p t a"
    by (simp add: successor_available)
qed

lemma solves_sabs:
  assumes "sabs s = sabs t" and "solves p s as"
  shows "solves p t as"
proof (cases as)
  case Nil
  with assms show ?thesis by (simp add: solves_Nil is_goal_state_def sabs_def)
next
  case (Cons a as')
  with assms(2) successor_sabs [OF assms(1), of a p] show ?thesis
    by (auto simp: solves_Cons)
qed

lemma child_nodes_of_complete:
  assumes "child_nodes_of p n as = Inr cs" and "a \<in> set as"
  shows "\<exists>c \<in> set cs. child_node p n a = Inr c"
  using assms
  by (induction as arbitrary: cs) (auto split: sum.splits)

lemma child_nodes_complete:
  assumes "child_nodes p n = Inr cs" and "a \<in> set (available_actions_for p (state n))"
  shows "\<exists>c \<in> set cs. child_node p n a = Inr c"
  using assms unfolding child_nodes_def by (rule child_nodes_of_complete)

lemma node_eq_list_sabs:
  assumes "node_eq e c" and "remaining_bananas (state c) = PyList ys"
  shows "sabs (state e) = sabs (state c)"
  using assms by (cases "remaining_bananas (state e)") (auto simp: node_eq_def sabs_def prod_eq_iff)

lemma dls_for_not_no_solution:
  assumes "\<And>c pl. c \<in> set cs \<Longrightarrow> \<exists>r. fst (rec c pl) = Inr r"
      and "b \<or> (\<exists>c1 \<in> set cs. \<forall>pl. fst (rec c1 pl) = Inr Cutoff \<or>
                                      (\<exists>res. fst (rec c1 pl) = Inr (Solution res)))"
  shows "fst (dls_for rec cs b pl) = Inr Cutoff \<or>
         (\<exists>res. fst (dls_for rec cs b pl) = Inr (Solution res))"
  using assms
proof (induction cs arbitrary: b pl)
  case Nil
  then show ?case by simp
next
  case (Cons c cs)
  obtain r pl' where r: "rec c pl = (r, pl')" by (cases "rec c pl")
  from Cons.prems(1) [of c pl] r obtain x where x: "r = Inr x" by auto
  have ok: "\<And>c pl. c \<in> set cs \<Longrightarrow> \<exists>r. fst (rec c pl) = Inr r"
    by (rule Cons.prems(1)) simp
  show ?case
  proof (cases x)
    case (Solution res)
    with r x show ?thesis by simp
  next
    case Cutoff
    have "fst (dls_for rec cs True pl') = Inr Cutoff \<or>
          (\<exists>res. fst (dls_for rec cs True pl') = Inr (Solution res))"
      by (rule Cons.IH [OF ok]) simp_all
    with r x Cutoff show ?thesis by simp
  next
    case NoSolution
    have "b \<or> (\<exists>c1 \<in> set cs. \<forall>pl. fst (rec c1 pl) = Inr Cutoff \<or>
                                     (\<exists>res. fst (rec c1 pl) = Inr (Solution res)))"
    proof (cases b)
      case False
      with Cons.prems(2) obtain c1 where c1: "c1 \<in> set (c # cs)"
        "\<forall>pl. fst (rec c1 pl) = Inr Cutoff \<or> (\<exists>res. fst (rec c1 pl) = Inr (Solution res))"
        by blast
      from c1(2) r x NoSolution have "c1 \<noteq> c" by (metis dls_result.distinct(3,5) fst_conv sum.inject(2))
      with c1 show ?thesis by auto
    qed simp
    from Cons.IH [OF ok this]
    have "fst (dls_for rec cs b pl') = Inr Cutoff \<or>
          (\<exists>res. fst (dls_for rec cs b pl') = Inr (Solution res))" by simp
    with r x NoSolution show ?thesis by simp
  qed
qed

lemma dls_for_solution:
  assumes "\<And>c pl. c \<in> set cs \<Longrightarrow> \<exists>r. fst (rec c pl) = Inr r"
      and "\<exists>c1 \<in> set cs. \<forall>pl. \<exists>res. fst (rec c1 pl) = Inr (Solution res)"
  shows "\<exists>res. fst (dls_for rec cs b pl) = Inr (Solution res)"
  using assms
proof (induction cs arbitrary: b pl)
  case Nil
  then show ?case by simp
next
  case (Cons c cs)
  obtain r pl' where r: "rec c pl = (r, pl')" by (cases "rec c pl")
  from Cons.prems(1) [of c pl] r obtain x where x: "r = Inr x" by auto
  have ok: "\<And>c pl. c \<in> set cs \<Longrightarrow> \<exists>r. fst (rec c pl) = Inr r"
    by (rule Cons.prems(1)) simp
  show ?case
  proof (cases "\<exists>res. x = Solution res")
    case True
    with r x show ?thesis by auto
  next
    case False
    from Cons.prems(2) obtain c1 where c1: "c1 \<in> set (c # cs)"
      "\<forall>pl. \<exists>res. fst (rec c1 pl) = Inr (Solution res)" by blast
    from c1(2) r x False have "c1 \<noteq> c" by (metis fst_conv sum.inject(2))
    with c1 have "\<exists>c1 \<in> set cs. \<forall>pl. \<exists>res. fst (rec c1 pl) = Inr (Solution res)" by auto
    from Cons.IH [OF ok this]
    have rest: "\<And>b pl. \<exists>res. fst (dls_for rec cs b pl) = Inr (Solution res)" by simp
    from False have "x = Cutoff \<or> x = NoSolution" by (cases x) simp_all
    with r x rest show ?thesis by auto
  qed
qed


lemma dls_complete:
  "derived p node \<Longrightarrow> solves p (state node) as \<Longrightarrow>
   \<forall>as'. solves p (state node) as' \<longrightarrow> length as \<le> length as' \<Longrightarrow>
   \<forall>e \<in> set E. \<forall>as'. solves p (state e) as' \<longrightarrow> length as \<le> length as' \<Longrightarrow>
   (fst (recursive_dls node p limit E pl) = Inr Cutoff \<or>
    (\<exists>res. fst (recursive_dls node p limit E pl) = Inr (Solution res))) \<and>
   (length as \<le> limit \<longrightarrow>
    (\<exists>res. fst (recursive_dls node p limit E pl) = Inr (Solution res)))"
proof (induction as arbitrary: node E limit pl)
  case Nil
  then have "is_goal_state (state node)" by (simp add: solves_Nil)
  with Nil.prems(1) show ?case
    by (simp add: recursive_dls.simps Let_def derived_unwrap_solution)
next
  case (Cons a as)
  have ng: "\<not> is_goal_state (state node)"
  proof
    assume "is_goal_state (state node)"
    then have "solves p (state node) []" by (simp add: solves_Nil)
    with Cons.prems(3) show False by fastforce
  qed
  show ?case
  proof (cases limit)
    case 0
    with ng show ?thesis by (simp add: recursive_dls.simps Let_def)
  next
    case (Suc l)
    from Cons.prems(2) obtain s' where a: "a \<in> set (available_actions_for p (state node))"
      and s': "successor p (state node) a = State s'" "solves p s' as"
      by (auto simp: solves_Cons)
    from child_nodes_ok [of p node] obtain cs where cs: "child_nodes p node = Inr cs"
      "\<forall>c \<in> set cs. \<exists>a \<in> set (available_actions_for p (state node)). child_node p node a = Inr c"
      by blast
    from child_nodes_complete [OF cs(1) a] obtain c1 where c1: "c1 \<in> set cs"
      "child_node p node a = Inr c1" by blast
    from child_node_state(1) [OF a c1(2)] s' have st: "state c1 = s'" by simp
    from child_node_is_list [OF c1(2)] obtain ys
      where ys: "remaining_bananas (state c1) = PyList ys" by blast
    have d1: "derived p c1" using Cons.prems(1) a c1(2) by (rule derived.child)
    have min1: "length as \<le> length as'" if "solves p (state c1) as'" for as'
    proof -
      from that a s'(1) st have "solves p (state node) (a # as')" by (simp add: solves_Cons)
      with Cons.prems(3) show ?thesis by fastforce
    qed
    have clean: "\<not> node_in c1 E"
    proof
      assume "node_in c1 E"
      then obtain e where e: "e \<in> set E" "node_eq e c1"
        by (auto simp: node_in_def list_ex_iff)
      from node_eq_list_sabs [OF e(2) ys] have "sabs (state c1) = sabs (state e)" by simp
      from solves_sabs [OF this] s'(2) st have "solves p (state e) as" by simp
      with Cons.prems(4) e(1) show False by fastforce
    qed
    have E1: "length as \<le> length as'"
      if "e \<in> set (set_add E node)" "solves p (state e) as'" for e as'
    proof -
      from that(1) have "e \<in> set E \<or> e = node" by (auto simp: set_add_def split: if_splits)
      with that(2) Cons.prems(3,4) have "length (a # as) \<le> length as'" by blast
      then show ?thesis by simp
    qed
    let ?rec = "\<lambda>child. recursive_dls child p l (set_add E node)"
    let ?cl = "clean_childs cs E"
    from c1(1) clean have c1cl: "c1 \<in> set ?cl" by (simp add: clean_childs_def)
    have ih: "(fst (?rec c1 pl') = Inr Cutoff \<or> (\<exists>res. fst (?rec c1 pl') = Inr (Solution res))) \<and>
              (length as \<le> l \<longrightarrow> (\<exists>res. fst (?rec c1 pl') = Inr (Solution res)))" for pl'
      using d1 s'(2) st min1 E1 by (intro Cons.IH) auto
    have ok: "\<exists>r. fst (?rec c pl') = Inr r" if "c \<in> set ?cl" for c pl'
    proof -
      from that have "c \<in> set cs" by (simp add: clean_childs_def)
      with Cons.prems(1) cs(1) have "derived p c" by (blast intro: child_nodes_derived)
      from recursive_dls_sound [OF this, of l "set_add E node" pl'] show ?thesis
        by (cases "fst (?rec c pl')") simp_all
    qed
    let ?pl = "pl\<lparr>id_counter := id_counter pl + 1, total_counter := total_counter pl + 1\<rparr>"
    have unfold: "recursive_dls node p limit E pl = dls_for ?rec ?cl False ?pl"
      using ng Suc cs(1) by (simp add: recursive_dls.simps Let_def)
    have 1: "fst (dls_for ?rec ?cl False ?pl) = Inr Cutoff \<or>
             (\<exists>res. fst (dls_for ?rec ?cl False ?pl) = Inr (Solution res))"
      by (rule dls_for_not_no_solution [OF ok]) (use c1cl ih in blast)+
    have 2: "\<exists>res. fst (dls_for ?rec ?cl False ?pl) = Inr (Solution res)"
      if "length (a # as) \<le> limit"
    proof (rule dls_for_solution [OF ok])
      from that Suc have "length as \<le> l" by simp
      with ih c1cl show "\<exists>c1 \<in> set ?cl. \<forall>pl. \<exists>res. fst (?rec c1 pl) = Inr (Solution res)"
        by blast
    qed
    from 1 2 show ?thesis unfolding unfold by blast
  qed
qed

lemma depth_limited_search_complete:
  assumes "solves p (state (initial_node p)) as"
      and "\<forall>as'. solves p (state (initial_node p)) as' \<longrightarrow> length as \<le> length as'"
  shows "fst (depth_limited_search p d pl) = Inr Cutoff \<or>
         (\<exists>res. fst (depth_limited_search p d pl) = Inr (Solution res))"
    and "length as \<le> d \<Longrightarrow> \<exists>res. fst (depth_limited_search p d pl) = Inr (Solution res)"
proof -
  have "(fst (depth_limited_search p d pl) = Inr Cutoff \<or>
         (\<exists>res. fst (depth_limited_search p d pl) = Inr (Solution res))) \<and>
        (length as \<le> d \<longrightarrow> (\<exists>res. fst (depth_limited_search p d pl) = Inr (Solution res)))"
    unfolding depth_limited_search_def
    using assms by (intro dls_complete derived.root) (simp_all add: set_add_def node_in_def)
  then show "fst (depth_limited_search p d pl) = Inr Cutoff \<or>
         (\<exists>res. fst (depth_limited_search p d pl) = Inr (Solution res))"
    and "length as \<le> d \<Longrightarrow> \<exists>res. fst (depth_limited_search p d pl) = Inr (Solution res)"
    by simp_all
qed

lemma ids_for_complete:
  assumes "solves p (state (initial_node p)) as"
      and "\<forall>as'. solves p (state (initial_node p)) as' \<longrightarrow> length as \<le> length as'"
  shows "\<exists>d \<in> set ds. length as \<le> d \<Longrightarrow>
         \<exists>res. fst (ids_for p ds result pl) = Inr (Solution res)"
proof (induction ds arbitrary: result pl)
  case Nil
  then show ?case by simp
next
  case (Cons d ds)
  obtain r pl' where r: "depth_limited_search p d pl = (r, pl')"
    by (cases "depth_limited_search p d pl")
  from depth_limited_search_complete(1) [OF assms, of d pl] r
  consider "r = Inr Cutoff" | res where "r = Inr (Solution res)" by auto
  then show ?case
  proof cases
    case 1
    have "\<not> length as \<le> d"
    proof
      assume "length as \<le> d"
      from depth_limited_search_complete(2) [OF assms this, of pl] r 1 show False by simp
    qed
    with Cons.prems have "\<exists>d \<in> set ds. length as \<le> d" by auto
    from Cons.IH [OF this] r 1 show ?thesis by (simp add: Let_def)
  next
    case 2
    with r show ?thesis by (simp add: Let_def)
  qed
qed

lemma solves_shortest:
  assumes "solves p s as"
  shows "\<exists>bs. solves p s bs \<and> length bs \<le> length as \<and>
              (\<forall>as'. solves p s as' \<longrightarrow> length bs \<le> length as')"
proof -
  from ex_has_least_nat [of "solves p s" as length] assms
  obtain bs where "solves p s bs" "\<forall>y. solves p s y \<longrightarrow> length bs \<le> length y" by blast
  with assms show ?thesis by blast
qed

lemma iterative_deepening_complete:
  assumes "solves p (state (initial_node p)) as" and "int (length as) < free_cells p"
  shows "\<exists>res. fst (iterative_deepening_search p pl) = Inr (Solution res)"
proof -
  from solves_shortest [OF assms(1)] obtain bs where bs:
    "solves p (state (initial_node p)) bs" "length bs \<le> length as"
    "\<forall>as'. solves p (state (initial_node p)) as' \<longrightarrow> length bs \<le> length as'" by blast
  from bs(2) assms(2) have "length bs \<in> set (range (free_cells p))"
    by (simp add: range_def)
  then have "\<exists>d \<in> set (range (free_cells p)). length bs \<le> d" by blast
  from ids_for_complete [OF bs(1,3) this] show ?thesis
    by (simp add: iterative_deepening_search_def)
qed

section \<open>The cost-ordered searches terminate when the step cost is not negative\<close>

lemma finite_state_space: "finite (state_space p)"
proof -
  have "{loc. is_inside_grid_map p loc} \<subseteq>
          {0 ..< fst (map_size p)} \<times> {0 ..< snd (map_size p)}"
    by (auto simp: is_inside_grid_map_def)
  then have "finite {loc. is_inside_grid_map p loc}"
    by (rule finite_subset) simp
  then show ?thesis by (simp add: state_space_def)
qed

lemma derived_canonical:
  "derived p n \<Longrightarrow>
   elements (remaining_bananas (state n)) \<in>
     (\<lambda>S. filter (\<lambda>b. b \<in> S) (banana_locations p)) ` Pow (set (banana_locations p))"
proof (induction rule: derived.induct)
  case root
  have "banana_locations p = filter (\<lambda>b. b \<in> set (banana_locations p)) (banana_locations p)"
    by simp
  moreover have "set (banana_locations p) \<in> Pow (set (banana_locations p))" by simp
  ultimately have "banana_locations p \<in>
      (\<lambda>S. filter (\<lambda>b. b \<in> S) (banana_locations p)) ` Pow (set (banana_locations p))"
    by (rule image_eqI)
  then show ?case by (simp add: initial_node_def new_node_def)
next
  case (child par a c)
  from child.IH obtain S where S: "S \<subseteq> set (banana_locations p)"
    "elements (remaining_bananas (state par)) = filter (\<lambda>b. b \<in> S) (banana_locations p)"
    by auto
  let ?loc = "move (current_location (state par)) a"
  from child.hyps(2,3) have
    "elements (remaining_bananas (state c)) =
       filter (\<lambda>b. b \<noteq> ?loc) (elements (remaining_bananas (state par)))"
    by (auto simp: child_node_available)
  also have "\<dots> = filter (\<lambda>b. b \<in> S - {?loc}) (banana_locations p)"
    by (simp add: S(2) conj_commute)
  finally show ?case using S(1) by blast
qed

lemma child_list_node:
  assumes "derived p par" and "a \<in> set (available_actions_for p (state par))"
      and "child_node p par a = Inr c"
  shows "list_node p c"
proof -
  have d: "derived p c" using assms by (rule derived.child)
  from assms(2,3) have "current_location (state c) = move (current_location (state par)) a"
    by (auto simp: child_node_available)
  moreover from assms(2)
  have "is_inside_grid_map p (move (current_location (state par)) a)"
    by (simp add: available_actions_for_def)
  ultimately have "is_inside_grid_map p (current_location (state c))" by simp
  with derived_canonical [OF d] child_node_is_list [OF assms(3)] show ?thesis
    by (simp add: list_node_def sabs_def state_space_def)
qed

lemma child_nodes_facts:
  assumes "derived p x" and "child_nodes p x = Inr cs" and "c \<in> set cs"
  shows "derived p c" and "list_node p c"
proof -
  from child_nodes_ok [of p x] assms(2,3)
  obtain a where a: "a \<in> set (available_actions_for p (state x))" "child_node p x a = Inr c"
    by auto
  from assms(1) a show "derived p c" by (rule derived.child)
  from assms(1) a show "list_node p c" by (rule child_list_node)
qed

lemma list_node_eq:
  assumes "list_node p k" and "list_node p c"
  shows "node_eq k c = (sabs (state k) = sabs (state c))"
  using assms by (auto simp: list_node_def node_eq_def sabs_def prod_eq_iff)

lemma node_in_keys:
  "node_in c (map fst d) = (\<exists>kv \<in> set d. node_eq (fst kv) c)"
  by (auto simp: node_in_def list_ex_iff)

lemma dict_set_new:
  "\<not> node_in c (map fst d) \<Longrightarrow> dict_set d c v = d @ [(c, v)]"
  by (induction d) (auto simp: node_in_def)

lemma dict_set_old:
  "node_in c (map fst d) \<Longrightarrow>
   \<exists>v0. dict_get d c = Some v0 \<and> fst ` set (dict_set d c v) = fst ` set d \<and>
        sum_list (map (\<lambda>kv. g (snd kv)) (dict_set d c v)) + g v0 =
          sum_list (map (\<lambda>kv. g (snd kv)) d) + (g v :: nat)"
proof (induction d)
  case Nil
  then show ?case by (simp add: node_in_def)
next
  case (Cons kv d)
  obtain k v' where kv: "kv = (k, v')" by (cases kv)
  show ?case
  proof (cases "node_eq k c")
    case True
    with kv show ?thesis by simp
  next
    case False
    with Cons.prems kv have "node_in c (map fst d)" by (simp add: node_in_def)
    from Cons.IH [OF this] obtain v0 where "dict_get d c = Some v0"
      "fst ` set (dict_set d c v) = fst ` set d"
      "sum_list (map (\<lambda>kv. g (snd kv)) (dict_set d c v)) + g v0 =
          sum_list (map (\<lambda>kv. g (snd kv)) d) + g v" by blast
    with False kv show ?thesis by simp
  qed
qed

lemma ucs_visit_visited: "visited path_cost c s (ucs_visit s c)"
  by (simp add: visited_def ucs_visit_def Let_def)

lemma astar_visit_visited:
  "visited (\<lambda>n. path_cost n + heuristic_cost n) c s (astar_visit s c)"
  by (simp add: visited_def astar_visit_def Let_def)


lemma total_inv_cong:
  assumes "frontier s' = frontier s" "reached s' = reached s" "solution s' = solution s"
          "solution_node s' = solution_node s"
  shows "total_inv p ex s' = total_inv p ex s"
  using assms
  by (simp add: total_inv_def search_inv_def closed_except_def reached_states_def)

lemma not_larger_cong:
  assumes "frontier s' = frontier s" "reached s' = reached s"
  shows "not_larger p L s' s"
  using assms by (simp add: not_larger_def reached_measure_def reached_states_def)

lemma key_sabs:
  assumes "node_in c (map fst (reached s))" and "list_node p c"
  shows "sabs (state c) \<in> reached_states s"
proof -
  from assms(1) obtain kv where kv: "kv \<in> set (reached s)" "node_eq (fst kv) c"
    by (auto simp: node_in_keys)
  from assms(2) obtain ys where "remaining_bananas (state c) = PyList ys"
    by (auto simp: list_node_def)
  from node_eq_list_sabs [OF kv(2) this] kv(1) show ?thesis
    by (force simp: reached_states_def)
qed

lemma sabs_key:
  assumes "sabs (state c) \<in> reached_states s" and "list_node p c"
      and "\<forall>kv \<in> set (reached s). list_node p (fst kv)"
  shows "node_in c (map fst (reached s))"
proof -
  from assms(1) obtain kv where kv: "kv \<in> set (reached s)"
    "sabs (state (fst kv)) = sabs (state c)" by (auto simp: reached_states_def)
  with assms(3) have "list_node p (fst kv)" by blast
  from list_node_eq [OF this assms(2)] kv(2) have "node_eq (fst kv) c" by simp
  with kv(1) show ?thesis by (auto simp: node_in_keys)
qed

lemma reached_states_keys:
  "reached_states s = (\<lambda>k. sabs (state k)) ` fst ` set (reached s)"
  by (simp add: reached_states_def image_image)

lemma visited_step:
  assumes v: "visited val c s s'" and inv: "total_inv p ex s"
      and c: "derived p c" "list_node p c" "L \<le> val c"
  shows "total_inv p ex s'" and "sabs (state c) \<in> reached_states s'"
    and "reached_states s \<subseteq> reached_states s'" and "not_larger p L s' s"
proof -
  let ?push = "\<not> node_in c (map fst (reached s)) \<or>
               (case dict_get (reached s) c of None \<Rightarrow> False | Some v \<Rightarrow> val c < v)"
  have "total_inv p ex s' \<and> sabs (state c) \<in> reached_states s' \<and>
        reached_states s \<subseteq> reached_states s' \<and> not_larger p L s' s"
  proof (cases ?push)
    case False
    with v have f: "frontier s' = frontier s" "reached s' = reached s"
      "solution s' = solution s" "solution_node s' = solution_node s"
      by (simp_all add: visited_def)
    from False have "node_in c (map fst (reached s))" by simp
    from key_sabs [OF this c(2)] have "sabs (state c) \<in> reached_states s" .
    with f inv total_inv_cong [OF f, of p ex] not_larger_cong [OF f(1,2), of p L]
    show ?thesis by (simp add: reached_states_def)
  next
    case True
    with v have fr: "frontier s' = heappush node_lt (frontier s) c"
      and re: "reached s' = dict_set (reached s) c (val c)"
      and so: "if is_goal_state (state c) \<and> num_lt (val c) (solution s)
               then solution s' = Finite (val c) \<and> solution_node s' = Some c
               else solution s' = solution s \<and> solution_node s' = solution_node s"
      by (simp_all add: visited_def)
    from inv have keys: "\<forall>kv \<in> set (reached s). list_node p (fst kv)"
      and sinv: "search_inv p s"
      by (simp_all add: total_inv_def)
    have fset: "set (frontier s') = insert c (set (frontier s))"
      by (simp add: fr heappush_set)
    have rs: "(if node_in c (map fst (reached s)) then reached_states s' = reached_states s
               else reached_states s' = insert (sabs (state c)) (reached_states s)) \<and>
              fst ` set (reached s') \<subseteq> insert c (fst ` set (reached s)) \<and>
              not_larger p L s' s"
    proof (cases "node_in c (map fst (reached s))")
      case False
      then have app: "reached s' = reached s @ [(c, val c)]"
        by (simp add: re dict_set_new)
      then have eq: "reached_states s' = insert (sabs (state c)) (reached_states s)"
        by (auto simp: reached_states_def)
      have notin: "sabs (state c) \<notin> reached_states s"
        using False sabs_key [OF _ c(2) keys] by blast
      from c(2) have inU: "sabs (state c) \<in> state_space p" by (simp add: list_node_def)
      have "state_space p - reached_states s' \<subset> state_space p - reached_states s"
        using eq notin inU by auto
      then have "card (state_space p - reached_states s') <
                 card (state_space p - reached_states s)"
        by (intro psubset_card_mono) (simp_all add: finite_state_space)
      then have "not_larger p L s' s"
        by (simp add: not_larger_def reached_measure_def)
      with False eq app show ?thesis by auto
    next
      case old: True
      from dict_set_old [OF old, of "val c" "\<lambda>v. nat (v - L)"] obtain v0 where v0:
        "dict_get (reached s) c = Some v0"
        "fst ` set (reached s') = fst ` set (reached s)"
        "sum_list (map (\<lambda>kv. nat (snd kv - L)) (reached s')) + nat (v0 - L) =
           sum_list (map (\<lambda>kv. nat (snd kv - L)) (reached s)) + nat (val c - L)"
        unfolding re by blast
      from True old v0(1) have "val c < v0" by simp
      with c(3) have "nat (val c - L) < nat (v0 - L)" by simp
      with v0(3) have less: "sum_list (map (\<lambda>kv. nat (snd kv - L)) (reached s')) <
                             sum_list (map (\<lambda>kv. nat (snd kv - L)) (reached s))" by linarith
      from v0(2) have eq: "reached_states s' = reached_states s"
        by (simp add: reached_states_keys)
      with less have "not_larger p L s' s"
        by (simp add: not_larger_def reached_measure_def)
      with old eq v0(2) show ?thesis by auto
    qed
    then have sub: "reached_states s \<subseteq> reached_states s'"
      and sup: "reached_states s' \<subseteq> insert (sabs (state c)) (reached_states s)"
      and ks: "fst ` set (reached s') \<subseteq> insert c (fst ` set (reached s))"
      and nl: "not_larger p L s' s"
      by (auto split: if_splits)
    have cin: "sabs (state c) \<in> reached_states s'"
    proof (cases "node_in c (map fst (reached s))")
      case True
      from key_sabs [OF this c(2)] sub show ?thesis by blast
    next
      case False
      with rs show ?thesis by simp
    qed
    have 1: "search_inv p s'"
      using sinv c(1) so fset by (auto simp: search_inv_def split: if_splits)
    have 2: "\<forall>kv \<in> set (reached s'). list_node p (fst kv)"
    proof
      fix kv assume "kv \<in> set (reached s')"
      then have "fst kv \<in> fst ` set (reached s')" by simp
      with ks have "fst kv = c \<or> fst kv \<in> fst ` set (reached s)" by blast
      with keys c(2) show "list_node p (fst kv)" by auto
    qed
    have 3: "solution s' \<noteq> Infinity \<longrightarrow> solution_node s' \<noteq> None"
      using inv so by (auto simp: total_inv_def split: if_splits)
    have 4: "(\<forall>kv \<in> set (reached s'). \<not> is_goal_state (state (fst kv))) \<and>
             closed_except p s' ex" if inf: "solution s' = Infinity"
    proof -
      from inf so have old: "solution s = Infinity" and ng: "\<not> is_goal_state (state c)"
        by (auto split: if_splits)
      with inv have nk: "\<forall>kv \<in> set (reached s). \<not> is_goal_state (state (fst kv))"
        and cl: "closed_except p s ex"
        by (simp_all add: total_inv_def)
      have a: "\<forall>kv \<in> set (reached s'). \<not> is_goal_state (state (fst kv))"
      proof
        fix kv assume "kv \<in> set (reached s')"
        then have "fst kv \<in> fst ` set (reached s')" by simp
        with ks have "fst kv = c \<or> fst kv \<in> fst ` set (reached s)" by blast
        with nk ng show "\<not> is_goal_state (state (fst kv))" by auto
      qed
      have b: "closed_except p s' ex"
        unfolding closed_except_def
      proof (intro allI impI)
        fix t
        assume t: "sabs t \<in> insert (sabs (state (initial_node p))) (reached_states s')"
          and ne: "Some (sabs t) \<noteq> ex"
        show "(\<exists>x \<in> set (frontier s'). sabs (state x) = sabs t) \<or>
              (\<forall>a \<in> set (available_actions_for p t). \<forall>t'.
                 successor p t a = State t' \<longrightarrow> sabs t' \<in> reached_states s')"
        proof (cases "sabs t \<in> insert (sabs (state (initial_node p))) (reached_states s)")
          case True
          with cl ne have "(\<exists>x \<in> set (frontier s). sabs (state x) = sabs t) \<or>
              (\<forall>a \<in> set (available_actions_for p t). \<forall>t'.
                 successor p t a = State t' \<longrightarrow> sabs t' \<in> reached_states s)"
            unfolding closed_except_def by blast
          with fset sub show ?thesis by blast
        next
          case False
          with t sup have "sabs t = sabs (state c)" by blast
          with fset show ?thesis by auto
        qed
      qed
      from a b show ?thesis ..
    qed
    from 1 2 3 4 have "total_inv p ex s'" by (simp add: total_inv_def)
    with cin sub nl show ?thesis by simp
  qed
  then show "total_inv p ex s'" and "sabs (state c) \<in> reached_states s'"
    and "reached_states s \<subseteq> reached_states s'" and "not_larger p L s' s"
    by simp_all
qed


lemma not_larger_trans:
  assumes "not_larger p L s2 s1" and "not_larger p L s1 s"
  shows "not_larger p L s2 s"
  using assms unfolding not_larger_def
  by (cases "reached_measure p L s2"; cases "reached_measure p L s1";
      cases "reached_measure p L s") auto

lemma not_larger_refl: "not_larger p L s s"
  by (simp add: not_larger_def)

lemma foldl_visited:
  assumes vis: "\<And>s c. visited val c s (vis s c)"
  shows "total_inv p ex s \<Longrightarrow>
         \<forall>c \<in> set cs. derived p c \<and> list_node p c \<and> L \<le> val c \<Longrightarrow>
         total_inv p ex (foldl vis s cs) \<and>
         (\<forall>c \<in> set cs. sabs (state c) \<in> reached_states (foldl vis s cs)) \<and>
         reached_states s \<subseteq> reached_states (foldl vis s cs) \<and>
         not_larger p L (foldl vis s cs) s"
proof (induction cs arbitrary: s)
  case Nil
  then show ?case by (simp add: not_larger_refl)
next
  case (Cons c cs)
  from Cons.prems(2) have c: "derived p c" "list_node p c" "L \<le> val c" by simp_all
  note st = visited_step [OF vis Cons.prems(1) c]
  from Cons.prems(2) have "\<forall>c \<in> set cs. derived p c \<and> list_node p c \<and> L \<le> val c" by simp
  from Cons.IH [OF st(1) this]
  have ih: "total_inv p ex (foldl vis (vis s c) cs)"
    "\<forall>c' \<in> set cs. sabs (state c') \<in> reached_states (foldl vis (vis s c) cs)"
    "reached_states (vis s c) \<subseteq> reached_states (foldl vis (vis s c) cs)"
    "not_larger p L (foldl vis (vis s c) cs) (vis s c)" by blast+
  from ih(4) st(4) have "not_larger p L (foldl vis (vis s c) cs) s"
    by (rule not_larger_trans)
  with ih st(2,3) show ?case by auto
qed

lemma heappop_length:
  assumes "heappop lt heap = Some (x, rest)"
  shows "length heap = Suc (length rest)"
proof -
  have "size (mset heap) = size (add_mset x (mset rest))"
    by (simp only: heappop_mset [OF assms])
  then show ?thesis by simp
qed

lemma total_inv_pop:
  assumes inv: "total_inv p None s" and pop: "heappop node_lt (frontier s) = Some (x, rest)"
      and f: "frontier s0 = rest" "reached s0 = reached s" "solution s0 = solution s"
             "solution_node s0 = solution_node s"
  shows "derived p x" and "total_inv p (Some (sabs (state x))) s0"
    and "reached_measure p L s0 = reached_measure p L s"
    and "length (frontier s) = Suc (length (frontier s0))"
proof -
  from heappop_set [OF pop] have fs: "set (frontier s) = insert x (set rest)" .
  from inv have sinv: "search_inv p s" by (simp add: total_inv_def)
  with fs show "derived p x" by (simp add: search_inv_def)
  from f(2) show "reached_measure p L s0 = reached_measure p L s"
    by (simp add: reached_measure_def reached_states_def)
  from heappop_length [OF pop] f(1) show "length (frontier s) = Suc (length (frontier s0))"
    by simp
  have rs: "reached_states s0 = reached_states s" by (simp add: reached_states_def f(2))
  have "closed_except p s0 (Some (sabs (state x)))" if "closed_except p s None"
    unfolding closed_except_def
  proof (intro allI impI)
    fix t
    assume t: "sabs t \<in> insert (sabs (state (initial_node p))) (reached_states s0)"
      and ne: "Some (sabs t) \<noteq> Some (sabs (state x))"
    note cl = that [unfolded closed_except_def, rule_format]
    from t rs have "sabs t \<in> insert (sabs (state (initial_node p))) (reached_states s)"
      by simp
    from cl [OF this] have "(\<exists>y \<in> set (frontier s). sabs (state y) = sabs t) \<or>
              (\<forall>a \<in> set (available_actions_for p t). \<forall>t'.
                 successor p t a = State t' \<longrightarrow> sabs t' \<in> reached_states s)"
      by blast
    then show "(\<exists>y \<in> set (frontier s0). sabs (state y) = sabs t) \<or>
              (\<forall>a \<in> set (available_actions_for p t). \<forall>t'.
                 successor p t a = State t' \<longrightarrow> sabs t' \<in> reached_states s0)"
    proof
      assume "\<exists>y \<in> set (frontier s). sabs (state y) = sabs t"
      then obtain y where y: "y \<in> set (frontier s)" "sabs (state y) = sabs t" by blast
      with ne have "y \<noteq> x" by auto
      with y fs f(1) show ?thesis by auto
    next
      assume "\<forall>a \<in> set (available_actions_for p t). \<forall>t'.
                 successor p t a = State t' \<longrightarrow> sabs t' \<in> reached_states s"
      with rs show ?thesis by simp
    qed
  qed
  with inv fs f show "total_inv p (Some (sabs (state x))) s0"
    by (simp add: total_inv_def search_inv_def)
qed

lemma total_inv_close:
  assumes inv: "total_inv p (Some (sabs (state x))) s" and cs: "child_nodes p x = Inr cs"
      and all: "\<forall>c \<in> set cs. sabs (state c) \<in> reached_states s"
  shows "total_inv p None s"
proof -
  have "closed_except p s None" if cl: "closed_except p s (Some (sabs (state x)))"
    unfolding closed_except_def
  proof (intro allI impI)
    fix t
    assume t: "sabs t \<in> insert (sabs (state (initial_node p))) (reached_states s)"
    show "(\<exists>y \<in> set (frontier s). sabs (state y) = sabs t) \<or>
              (\<forall>a \<in> set (available_actions_for p t). \<forall>t'.
                 successor p t a = State t' \<longrightarrow> sabs t' \<in> reached_states s)"
    proof (cases "sabs t = sabs (state x)")
      case False
      with cl t show ?thesis unfolding closed_except_def by blast
    next
      case True
      have "sabs t' \<in> reached_states s"
        if a: "a \<in> set (available_actions_for p t)" and t': "successor p t a = State t'"
        for a t'
      proof -
        from successor_sabs [OF True, of a p] a t'
        have ax: "a \<in> set (available_actions_for p (state x))"
          and sx: "successor p (state x) a = State t'" by simp_all
        from child_nodes_complete [OF cs ax] obtain c where c: "c \<in> set cs"
          "child_node p x a = Inr c" by blast
        from child_node_state(1) [OF ax c(2)] sx have "t' = state c" by simp
        with all c(1) show ?thesis by simp
      qed
      then show ?thesis by blast
    qed
  qed
  with inv show ?thesis by (simp add: total_inv_def)
qed

lemma closed_no_solution:
  assumes cl: "closed_except p s None" and empty: "frontier s = []"
      and ng: "\<forall>kv \<in> set (reached s). \<not> is_goal_state (state (fst kv))"
      and root: "\<not> is_goal_state (state (initial_node p))"
  shows "sabs t \<in> insert (sabs (state (initial_node p))) (reached_states s) \<Longrightarrow>
         \<not> solves p t as"
proof (induction as arbitrary: t)
  case Nil
  have "\<not> is_goal_state t"
  proof (cases "sabs t = sabs (state (initial_node p))")
    case True
    with root show ?thesis by (simp add: is_goal_state_def sabs_def)
  next
    case False
    with Nil obtain kv where "kv \<in> set (reached s)" "sabs (state (fst kv)) = sabs t"
      by (auto simp: reached_states_def)
    with ng show ?thesis by (auto simp: is_goal_state_def sabs_def)
  qed
  then show ?case by (simp add: solves_Nil)
next
  case (Cons a as)
  show ?case
  proof
    assume "solves p t (a # as)"
    then obtain t' where a: "a \<in> set (available_actions_for p t)"
      and t': "successor p t a = State t'" "solves p t' as"
      by (auto simp: solves_Cons)
    from cl Cons.prems empty a t'(1) have "sabs t' \<in> reached_states s"
      unfolding closed_except_def by fastforce
    then have "\<not> solves p t' as" by (intro Cons.IH) simp
    with t'(2) show False by simp
  qed
qed

lemma finished:
  assumes inv: "total_inv p None s" and fin: "frontier s = [] \<or> solution s \<noteq> Infinity"
      and sol: "solves p (state (initial_node p)) as0"
      and root: "\<not> is_goal_state (state (initial_node p))"
  shows "\<exists>n. solution_node s = Some n \<and> derived p n \<and> is_goal_state (state n)"
proof -
  have "solution s \<noteq> Infinity"
  proof
    assume inf: "solution s = Infinity"
    with fin have empty: "frontier s = []" by simp
    from inv inf have "closed_except p s None"
      "\<forall>kv \<in> set (reached s). \<not> is_goal_state (state (fst kv))"
      by (simp_all add: total_inv_def)
    from closed_no_solution [OF this(1) empty this(2) root, of "state (initial_node p)" as0] sol
    show False by simp
  qed
  with inv obtain n where "solution_node s = Some n" by (auto simp: total_inv_def)
  with inv show ?thesis by (auto simp: total_inv_def search_inv_def)
qed

lemma expand_step:
  assumes vis: "\<And>s c. visited val c s (vis s c)"
      and inv: "total_inv p None s" and pop: "heappop node_lt (frontier s) = Some (x, rest)"
      and f: "frontier s0 = rest" "reached s0 = reached s" "solution s0 = solution s"
             "solution_node s0 = solution_node s"
      and cs: "child_nodes p x = Inr cs"
      and bound: "\<And>c. derived p c \<Longrightarrow> list_node p c \<Longrightarrow> L \<le> val c"
  shows "total_inv p None (foldl vis s0 cs)"
    and "((reached_measure p L (foldl vis s0 cs), length (frontier (foldl vis s0 cs))),
          (reached_measure p L s, length (frontier s)))
         \<in> (less_than <*lex*> less_than) <*lex*> less_than"
proof -
  note p0 = total_inv_pop [OF inv pop f]
  have good: "\<forall>c \<in> set cs. derived p c \<and> list_node p c \<and> L \<le> val c"
    using child_nodes_facts [OF p0(1) cs] bound by blast
  from foldl_visited [OF vis p0(2) good]
  have fl: "total_inv p (Some (sabs (state x))) (foldl vis s0 cs)"
    "\<forall>c \<in> set cs. sabs (state c) \<in> reached_states (foldl vis s0 cs)"
    "not_larger p L (foldl vis s0 cs) s0" by simp_all
  from total_inv_close [OF fl(1) cs fl(2)] show "total_inv p None (foldl vis s0 cs)" .
  from fl(3) p0(3,4)
  show "((reached_measure p L (foldl vis s0 cs), length (frontier (foldl vis s0 cs))),
          (reached_measure p L s, length (frontier s)))
         \<in> (less_than <*lex*> less_than) <*lex*> less_than"
    by (auto simp: not_larger_def)
qed

lemma ucs_lower_bound:
  assumes "derived p n" and "0 \<le> step_cost p"
  shows "- (\<bar>banana_reward p\<bar> * int (card (set (banana_locations p)))) \<le> path_cost n"
proof -
  define B where "B = int (card (set (banana_locations p)))"
  define k where "k = int (card (set (elements (remaining_bananas (state n)))))"
  define r where "r = banana_reward p"
  from derived_path_cost [OF assms(1)]
  have sub: "set (elements (remaining_bananas (state n))) \<subseteq> set (banana_locations p)"
    and pc: "path_cost n = int (length (path_actions n)) * step_cost p + (B - k) * r"
    by (simp_all add: B_def k_def r_def)
  from sub have "card (set (elements (remaining_bananas (state n))))
                   \<le> card (set (banana_locations p))"
    by (simp add: card_mono)
  then have kB: "0 \<le> B - k" "B - k \<le> B" by (simp_all add: B_def k_def)
  have "- (\<bar>r\<bar> * B) \<le> - (\<bar>r\<bar> * (B - k))"
    using kB by (simp add: mult_left_mono)
  also have "\<dots> = - \<bar>(B - k) * r\<bar>"
    using kB by (simp add: abs_mult mult.commute)
  also have "\<dots> \<le> (B - k) * r" by simp
  finally have "- (\<bar>r\<bar> * B) \<le> (B - k) * r" .
  moreover from assms(2) have "0 \<le> int (length (path_actions n)) * step_cost p" by simp
  ultimately show ?thesis unfolding pc B_def r_def by linarith
qed

lemma derived_list_heuristic:
  assumes "derived p c" and "list_node p c"
  shows "heuristic_cost c =
           heuristic_func p (new_node (fst (sabs (state c))) (PyList (snd (sabs (state c)))))"
  using assms
proof (cases rule: derived.cases)
  case root
  with assms(2) show ?thesis by (simp add: list_node_def initial_node_def new_node_def)
next
  case (child par a)
  then show ?thesis by (auto simp: child_node_available sabs_def)
qed

lemma astar_lower_bound:
  assumes "derived p c" and "list_node p c" and "0 \<le> step_cost p"
  shows "- (\<bar>banana_reward p\<bar> * int (card (set (banana_locations p)))) +
         Min ((\<lambda>u. heuristic_func p (new_node (fst u) (PyList (snd u)))) ` state_space p)
         \<le> path_cost c + heuristic_cost c"
proof -
  from assms(2) have "sabs (state c) \<in> state_space p" by (simp add: list_node_def)
  then have "Min ((\<lambda>u. heuristic_func p (new_node (fst u) (PyList (snd u)))) ` state_space p)
             \<le> heuristic_func p (new_node (fst (sabs (state c))) (PyList (snd (sabs (state c)))))"
    by (intro Min_le) (simp_all add: finite_state_space)
  with derived_list_heuristic [OF assms(1,2)] ucs_lower_bound [OF assms(1,3)]
  show ?thesis by simp
qed

lemma heappop_None: "heappop lt heap = None \<Longrightarrow> heap = []"
  by (cases heap) (simp_all add: Let_def split: if_splits)

lemma ucs_while_total:
  assumes step: "0 \<le> step_cost p" and sol: "solves p (state (initial_node p)) as0"
      and root: "\<not> is_goal_state (state (initial_node p))"
      and inv: "total_inv p None s"
  shows "\<exists>s' n. ucs_while p s = Some (Inr s') \<and> solution_node s' = Some n \<and>
                derived p n \<and> is_goal_state (state n)"
proof -
  define L where "L = - (\<bar>banana_reward p\<bar> * int (card (set (banana_locations p))))"
  define R where "R = inv_image ((less_than <*lex*> less_than) <*lex*> less_than)
                        (\<lambda>s. (reached_measure p L s, length (frontier s)))"
  have bound: "L \<le> path_cost c" if "derived p c" for c
    unfolding L_def using that step by (rule ucs_lower_bound)
  have "wf R" unfolding R_def by (intro wf_inv_image wf_lex_prod wf_less_than)
  from this inv show ?thesis
  proof (induction s rule: wf_induct_rule)
    case (less s)
    show ?case
    proof (cases "heappop node_lt (frontier s)")
      case None
      then have "frontier s = []" by (rule heappop_None)
      then have "frontier s = [] \<or> solution s \<noteq> Infinity" ..
      from finished [OF less.prems this sol root] obtain n where
        "solution_node s = Some n" "derived p n" "is_goal_state (state n)" by blast
      moreover from None have "ucs_while p s = Some (Inr s)"
        by (subst ucs_while.simps) simp
      ultimately show ?thesis by blast
    next
      case (Some got)
      obtain x rest where got: "got = (x, rest)" by (cases got)
      with Some have pop: "heappop node_lt (frontier s) = Some (x, rest)" by simp
      let ?s0 = "s\<lparr>frontier := rest\<rparr>"
      show ?thesis
      proof (cases "num_lt (path_cost x) (solution s)")
        case False
        then have "solution s \<noteq> Infinity" by auto
        then have "frontier s = [] \<or> solution s \<noteq> Infinity" ..
        from finished [OF less.prems this sol root] obtain n where
          "solution_node s = Some n" "derived p n" "is_goal_state (state n)" by blast
        moreover from pop False have "ucs_while p s = Some (Inr ?s0)"
          by (subst ucs_while.simps) simp
        ultimately show ?thesis by simp
      next
        case True
        from child_nodes_ok [of p x] obtain cs where cs: "child_nodes p x = Inr cs" by blast
        have ex: "total_inv p None (foldl ucs_visit ?s0 cs)"
          "((reached_measure p L (foldl ucs_visit ?s0 cs),
             length (frontier (foldl ucs_visit ?s0 cs))),
            (reached_measure p L s, length (frontier s)))
           \<in> (less_than <*lex*> less_than) <*lex*> less_than"
          by (rule expand_step [OF ucs_visit_visited less.prems pop _ _ _ _ cs bound];
              simp)+
        from ex(2) have "(foldl ucs_visit ?s0 cs, s) \<in> R" by (simp add: R_def)
        from less.IH [OF this ex(1)] obtain s' n where
          "ucs_while p (foldl ucs_visit ?s0 cs) = Some (Inr s')" "solution_node s' = Some n"
          "derived p n" "is_goal_state (state n)" by blast
        moreover from pop True cs
        have "ucs_while p s = ucs_while p (foldl ucs_visit ?s0 cs)"
          by (subst ucs_while.simps) simp
        ultimately show ?thesis by simp
      qed
    qed
  qed
qed

lemma astar_while_total:
  assumes step: "0 \<le> step_cost p" and sol: "solves p (state (initial_node p)) as0"
      and root: "\<not> is_goal_state (state (initial_node p))"
      and inv: "total_inv p None s"
  shows "\<exists>s' n. astar_while p s = Some (Inr s') \<and> solution_node s' = Some n \<and>
                derived p n \<and> is_goal_state (state n)"
proof -
  define L where "L = - (\<bar>banana_reward p\<bar> * int (card (set (banana_locations p)))) +
         Min ((\<lambda>u. heuristic_func p (new_node (fst u) (PyList (snd u)))) ` state_space p)"
  define R where "R = inv_image ((less_than <*lex*> less_than) <*lex*> less_than)
                        (\<lambda>s. (reached_measure p L s, length (frontier s)))"
  have bound: "L \<le> path_cost c + heuristic_cost c" if "derived p c" "list_node p c" for c
    unfolding L_def using that step by (rule astar_lower_bound)
  have "wf R" unfolding R_def by (intro wf_inv_image wf_lex_prod wf_less_than)
  from this inv show ?thesis
  proof (induction s rule: wf_induct_rule)
    case (less s)
    show ?case
    proof (cases "heappop node_lt (frontier s)")
      case None
      then have "frontier s = []" by (rule heappop_None)
      then have "frontier s = [] \<or> solution s \<noteq> Infinity" ..
      from finished [OF less.prems this sol root] obtain n where
        "solution_node s = Some n" "derived p n" "is_goal_state (state n)" by blast
      moreover from None have "astar_while p s = Some (Inr s)"
        by (subst astar_while.simps) simp
      ultimately show ?thesis by blast
    next
      case (Some got)
      obtain x rest where got: "got = (x, rest)" by (cases got)
      with Some have pop: "heappop node_lt (frontier s) = Some (x, rest)" by simp
      let ?s0 = "s\<lparr>frontier := rest, counter := counter s + 1\<rparr>"
      show ?thesis
      proof (cases "num_lt (path_cost x + heuristic_cost x) (solution s)")
        case False
        then have "solution s \<noteq> Infinity" by auto
        then have "frontier s = [] \<or> solution s \<noteq> Infinity" ..
        from finished [OF less.prems this sol root] obtain n where
          "solution_node s = Some n" "derived p n" "is_goal_state (state n)" by blast
        moreover from pop False have "astar_while p s = Some (Inr (s\<lparr>frontier := rest\<rparr>))"
          by (subst astar_while.simps) simp
        ultimately show ?thesis by simp
      next
        case True
        from child_nodes_ok [of p x] obtain cs where cs: "child_nodes p x = Inr cs" by blast
        have ex: "total_inv p None (foldl astar_visit ?s0 cs)"
          "((reached_measure p L (foldl astar_visit ?s0 cs),
             length (frontier (foldl astar_visit ?s0 cs))),
            (reached_measure p L s, length (frontier s)))
           \<in> (less_than <*lex*> less_than) <*lex*> less_than"
          by (rule expand_step [OF astar_visit_visited less.prems pop _ _ _ _ cs bound];
              simp)+
        from ex(2) have "(foldl astar_visit ?s0 cs, s) \<in> R" by (simp add: R_def)
        from less.IH [OF this ex(1)] obtain s' n where
          "astar_while p (foldl astar_visit ?s0 cs) = Some (Inr s')" "solution_node s' = Some n"
          "derived p n" "is_goal_state (state n)" by blast
        moreover from pop True cs
        have "astar_while p s = astar_while p (foldl astar_visit ?s0 cs)"
          by (subst astar_while.simps) simp
        ultimately show ?thesis by simp
      qed
    qed
  qed
qed

lemma initial_total_inv:
  "total_inv p None \<lparr>frontier = heappush node_lt [] (initial_node p), reached = [],
                      solution = Infinity, solution_node = None, counter = k\<rparr>"
  using initial_search_inv [of p k]
  by (simp add: total_inv_def closed_except_def reached_states_def heappush_set)

lemma search_result_total:
  assumes "r = Some (Inr s')" and "solution_node s' = Some n" and "derived p n"
      and "is_goal_state (state n)"
  shows "\<exists>res cnt'. search_result r = Some (Inr (res, cnt')) \<and>
           (\<exists>g. replay p (State (state (initial_node p))) (sequence_actions res) =
                  Inr (State g) \<and> is_goal_state g)"
  using assms derived_replay [OF assms(3)]
  by (simp add: search_result_def derived_unwrap_solution)

lemma uniform_cost_search_total:
  assumes "0 \<le> step_cost p" and "solves p (state (initial_node p)) as0"
  shows "\<exists>res cnt'. uniform_cost_search p cnt = Some (Inr (res, cnt')) \<and>
           (\<exists>g. replay p (State (state (initial_node p))) (sequence_actions res) =
                  Inr (State g) \<and> is_goal_state g)"
proof (cases "is_goal_state (state (initial_node p))")
  case True
  then show ?thesis by (simp add: uniform_cost_search_def)
next
  case False
  from ucs_while_total [OF assms False initial_total_inv] obtain s' n where
    "ucs_while p \<lparr>frontier = heappush node_lt [] (initial_node p), reached = [],
                  solution = Infinity, solution_node = None, counter = cnt + 1\<rparr> =
       Some (Inr s')"
    "solution_node s' = Some n" "derived p n" "is_goal_state (state n)" by blast
  from search_result_total [OF this] False show ?thesis
    by (simp add: uniform_cost_search_def)
qed

lemma astar_search_total:
  assumes "0 \<le> step_cost p" and "solves p (state (initial_node p)) as0"
  shows "\<exists>res cnt'. astar_search p cnt = Some (Inr (res, cnt')) \<and>
           (\<exists>g. replay p (State (state (initial_node p))) (sequence_actions res) =
                  Inr (State g) \<and> is_goal_state g)"
proof (cases "is_goal_state (state (initial_node p))")
  case True
  then show ?thesis by (simp add: astar_search_def)
next
  case False
  from astar_while_total [OF assms False initial_total_inv] obtain s' n where
    "astar_while p \<lparr>frontier = heappush node_lt [] (initial_node p), reached = [],
                    solution = Infinity, solution_node = None, counter = cnt\<rparr> =
       Some (Inr s')"
    "solution_node s' = Some n" "derived p n" "is_goal_state (state n)" by blast
  from search_result_total [OF this] False show ?thesis
    by (simp add: astar_search_def)
qed

section \<open>Which problems get a result\<close>

lemmas three_eval =
  depth_limited_search_def recursive_dls.simps IDPlayer_problem_def HungryMonkeyProblem_init_def
  three_world_def initial_node_def new_node_def is_goal_state_def child_nodes_def
  available_actions_for_def move_def is_inside_grid_map_def child_node_def successor_def
  py_in_def East_def West_def clean_childs_def node_in_def node_eq_def set_add_def
  unwrap_solution_def Let_def

lemma three_dls_0:
  "depth_limited_search (IDPlayer_problem three_world [East, West]) 0 pl =
     (Inr Cutoff, pl\<lparr>id_counter := id_counter pl + 1, total_counter := total_counter pl + 1,
                      printed := printed pl @ [LimitDepth 0]\<rparr>)"
  by (simp add: three_eval)

lemma three_dls_1:
  "depth_limited_search (IDPlayer_problem three_world [East, West]) (Suc 0) pl =
     (Inr Cutoff, pl\<lparr>id_counter := id_counter pl + 3, total_counter := total_counter pl + 3,
                      printed := printed pl @ [LimitDepth 1]\<rparr>)"
  by (simp add: three_eval)

lemma three_dls_2:
  "depth_limited_search (IDPlayer_problem three_world [East, West]) 2 pl =
     (Inr Cutoff, pl\<lparr>id_counter := id_counter pl + 5, total_counter := total_counter pl + 5,
                      printed := printed pl @ [LimitDepth 2]\<rparr>)"
  by (simp add: three_eval numeral_2_eq_2)

lemma three_range:
  "range (free_cells (IDPlayer_problem three_world [East, West])) = [0, Suc 0, 2]"
  by (simp add: range_def free_cells_def IDPlayer_problem_def HungryMonkeyProblem_init_def
        three_world_def upt_rec numeral_eq_Suc)

lemma three_ids_run:
  "iterative_deepening_search (IDPlayer_problem three_world [East, West]) new_player =
     (Inr Cutoff,
      \<lparr>id_counter = 0, total_counter = 9,
        printed = [LimitDepth 0, NodesExplored 1, LimitDepth 1, NodesExplored 3,
                   LimitDepth 2, NodesExplored 5]\<rparr>)"
  by (simp add: iterative_deepening_search_def three_range three_dls_0 three_dls_1 three_dls_2
        new_player_def)

lemma three_replay:
  assumes "map_size p = (3, 1)" "block_locations p = []" "possible_actions p = [East, West]"
      and "initial_location p = (1, 0)" "banana_locations p = [(0, 0), (2, 0)]"
  shows "replay p (State (state (initial_node p))) [East, West, West] =
           Inr (State \<lparr>current_location = (0, 0), remaining_bananas = PyList []\<rparr>)"
  using assms
  by (simp add: successor_def available_actions_for_def move_def is_inside_grid_map_def
        West_def East_def initial_node_def new_node_def)

lemma three_ucs_run:
  "uniform_cost_search (UCPlayer_problem three_world [East, West]) 0 =
     Some (Inr (\<lparr>sequence_actions = [East, West, West], total_reward = Finite (- 17)\<rparr>, 7))"
  by code_simp

lemma three_astar_run:
  "astar_search (AStarPlayer_problem three_world [East, West]) 0 =
     Some (Inr (\<lparr>sequence_actions = [East, West, West], total_reward = Finite (- 17)\<rparr>, 4))"
  by code_simp

text \<open>
  C1, the claim as stated fails: a problem with a reachable goal state need not get a result.
  On the 3-by-1 grid with the eater in the middle and a banana at each end, East, West, West
  leads to a goal state, and iterative deepening, which tries the depth limits 0, 1 and 2
  only, returns the cutoff flag. On the 4-by-1 grid with step cost -1 and banana reward 10,
  East, East, East leads to a goal state, and uniform-cost search never leaves its loop.
\<close>

theorem reachable_goal_without_result:
  "replay (IDPlayer_problem three_world [East, West])
     (State (state (initial_node (IDPlayer_problem three_world [East, West]))))
     [East, West, West] =
     Inr (State \<lparr>current_location = (0, 0), remaining_bananas = PyList []\<rparr>) \<and>
   is_goal_state \<lparr>current_location = (0, 0), remaining_bananas = PyList []\<rparr> \<and>
   iterative_deepening_search (IDPlayer_problem three_world [East, West]) new_player =
     (Inr Cutoff,
      \<lparr>id_counter = 0, total_counter = 9,
        printed = [LimitDepth 0, NodesExplored 1, LimitDepth 1, NodesExplored 3,
                   LimitDepth 2, NodesExplored 5]\<rparr>) \<and>
   replay line_problem (State (state (initial_node line_problem))) [East, East, East] =
     Inr (State \<lparr>current_location = (3, 0), remaining_bananas = PyList []\<rparr>) \<and>
   is_goal_state \<lparr>current_location = (3, 0), remaining_bananas = PyList []\<rparr> \<and>
   uniform_cost_search line_problem 0 = None"
proof -
  have 1: "replay (IDPlayer_problem three_world [East, West])
     (State (state (initial_node (IDPlayer_problem three_world [East, West]))))
     [East, West, West] =
     Inr (State \<lparr>current_location = (0, 0), remaining_bananas = PyList []\<rparr>)"
    by (rule three_replay)
       (simp_all add: IDPlayer_problem_def HungryMonkeyProblem_init_def three_world_def)
  have 2: "replay line_problem (State (state (initial_node line_problem))) [East, East, East] =
     Inr (State \<lparr>current_location = (3, 0), remaining_bananas = PyList []\<rparr>)"
    by (rule line_replay)
       (simp_all add: line_problem_def HungryMonkeyProblem_init_def line_world_def)
  have "\<not> is_goal_state (state (initial_node line_problem))"
    by (simp add: is_goal_state_def initial_node_def new_node_def line_problem_def
          HungryMonkeyProblem_init_def line_world_def)
  then have 3: "uniform_cost_search line_problem 0 = None"
    by (simp add: uniform_cost_search_def ucs_while_line_problem search_result_def)
  from 1 2 3 three_ids_run show ?thesis by (simp add: is_goal_state_def)
qed

text \<open>
  C1, as amended. Whenever uniform-cost search, heuristic search or iterative deepening
  returns a result, replaying its action sequence with \<open>successor\<close> from the initial state
  passes through states only and ends in a goal state. And in a problem where some action
  sequence \<open>acts\<close> leads from the initial state to a goal state, a result is returned: by
  uniform-cost search and by heuristic search (which terminate) when the step cost is not
  negative, and by iterative deepening when \<open>acts\<close> has fewer actions than the grid has
  cells that are not blocks.
\<close>

theorem search_returns_path_to_goal:
  "(uniform_cost_search p cnt = Some (Inr (res, cnt')) \<longrightarrow>
      (\<exists>s. replay p (State (state (initial_node p))) (sequence_actions res) = Inr (State s) \<and>
           is_goal_state s)) \<and>
   (astar_search p cnt = Some (Inr (res, cnt')) \<longrightarrow>
      (\<exists>s. replay p (State (state (initial_node p))) (sequence_actions res) = Inr (State s) \<and>
           is_goal_state s)) \<and>
   (iterative_deepening_search p pl = (Inr (Solution res), pl') \<longrightarrow>
      (\<exists>s. replay p (State (state (initial_node p))) (sequence_actions res) = Inr (State s) \<and>
           is_goal_state s)) \<and>
   (replay p (State (state (initial_node p))) acts = Inr (State g) \<and> is_goal_state g \<longrightarrow>
      (0 \<le> step_cost p \<longrightarrow>
         (\<exists>r c. uniform_cost_search p cnt = Some (Inr (r, c))) \<and>
         (\<exists>r c. astar_search p cnt = Some (Inr (r, c)))) \<and>
      (int (length acts) < free_cells p \<longrightarrow>
         (\<exists>r pl''. iterative_deepening_search p pl = (Inr (Solution r), pl''))))"
proof -
  have part: "(uniform_cost_search p cnt = Some (Inr (res, cnt')) \<longrightarrow>
      (\<exists>s. replay p (State (state (initial_node p))) (sequence_actions res) = Inr (State s) \<and>
           is_goal_state s)) \<and>
   (astar_search p cnt = Some (Inr (res, cnt')) \<longrightarrow>
      (\<exists>s. replay p (State (state (initial_node p))) (sequence_actions res) = Inr (State s) \<and>
           is_goal_state s)) \<and>
   (iterative_deepening_search p pl = (Inr (Solution res), pl') \<longrightarrow>
      (\<exists>s. replay p (State (state (initial_node p))) (sequence_actions res) = Inr (State s) \<and>
           is_goal_state s))"
    using uniform_cost_search_goal [of p cnt res cnt'] astar_search_goal [of p cnt res cnt']
          ids_replays_to_goal [of p pl res pl']
    by (blast intro: path_replays_to_goal)
  have total: "(0 \<le> step_cost p \<longrightarrow>
         (\<exists>r c. uniform_cost_search p cnt = Some (Inr (r, c))) \<and>
         (\<exists>r c. astar_search p cnt = Some (Inr (r, c)))) \<and>
      (int (length acts) < free_cells p \<longrightarrow>
         (\<exists>r pl''. iterative_deepening_search p pl = (Inr (Solution r), pl'')))"
    if "replay p (State (state (initial_node p))) acts = Inr (State g)" "is_goal_state g"
  proof -
    from that have sol: "solves p (state (initial_node p)) acts"
      by (auto simp: solves_replay)
    have "\<exists>r c. uniform_cost_search p cnt = Some (Inr (r, c))" if "0 \<le> step_cost p"
      using uniform_cost_search_total [OF that sol, of cnt] by blast
    moreover have "\<exists>r c. astar_search p cnt = Some (Inr (r, c))" if "0 \<le> step_cost p"
      using astar_search_total [OF that sol, of cnt] by blast
    moreover have "\<exists>r pl''. iterative_deepening_search p pl = (Inr (Solution r), pl'')"
      if "int (length acts) < free_cells p"
    proof -
      from iterative_deepening_complete [OF sol that, of pl] obtain r
        where "fst (iterative_deepening_search p pl) = Inr (Solution r)" by blast
      then show ?thesis by (cases "iterative_deepening_search p pl") auto
    qed
    ultimately show ?thesis by blast
  qed
  from part total show ?thesis by blast
qed

theorem search_returns_path_to_goal_witness:
  "uniform_cost_search (UCPlayer_problem three_world [East, West]) 0 =
     Some (Inr (\<lparr>sequence_actions = [East, West, West], total_reward = Finite (- 17)\<rparr>, 7)) \<and>
   replay (UCPlayer_problem three_world [East, West])
     (State (state (initial_node (UCPlayer_problem three_world [East, West]))))
     [East, West, West] =
     Inr (State \<lparr>current_location = (0, 0), remaining_bananas = PyList []\<rparr>) \<and>
   0 \<le> step_cost (UCPlayer_problem three_world [East, West]) \<and>
   (\<exists>r c. uniform_cost_search (UCPlayer_problem three_world [East, West]) 0 =
            Some (Inr (r, c))) \<and>
   astar_search (AStarPlayer_problem three_world [East, West]) 0 =
     Some (Inr (\<lparr>sequence_actions = [East, West, West], total_reward = Finite (- 17)\<rparr>, 4)) \<and>
   replay (AStarPlayer_problem three_world [East, West])
     (State (state (initial_node (AStarPlayer_problem three_world [East, West]))))
     [East, West, West] =
     Inr (State \<lparr>current_location = (0, 0), remaining_bananas = PyList []\<rparr>) \<and>
   0 \<le> step_cost (AStarPlayer_problem three_world [East, West]) \<and>
   (\<exists>r c. astar_search (AStarPlayer_problem three_world [East, West]) 0 =
            Some (Inr (r, c))) \<and>
   iterative_deepening_search (IDPlayer_problem line_world [East, West]) new_player =
     (Inr (Solution \<lparr>sequence_actions = [East, East, East], total_reward = Finite 7\<rparr>),
      \<lparr>id_counter = 0, total_counter = 11,
        printed = [LimitDepth 0, NodesExplored 1, LimitDepth 1, NodesExplored 2,
                   LimitDepth 2, NodesExplored 4, LimitDepth 3, NodesExplored 4]\<rparr>) \<and>
   replay (IDPlayer_problem line_world [East, West])
     (State (state (initial_node (IDPlayer_problem line_world [East, West]))))
     [East, East, East] =
     Inr (State \<lparr>current_location = (3, 0), remaining_bananas = PyList []\<rparr>) \<and>
   int (length [East, East, East]) < free_cells (IDPlayer_problem line_world [East, West]) \<and>
   (\<exists>r pl''. iterative_deepening_search (IDPlayer_problem line_world [East, West]) new_player =
              (Inr (Solution r), pl'')) \<and>
   is_goal_state \<lparr>current_location = (0, 0), remaining_bananas = PyList []\<rparr> \<and>
   is_goal_state \<lparr>current_location = (3, 0), remaining_bananas = PyList []\<rparr>"
proof -
  let ?U = "UCPlayer_problem three_world [East, West]"
  let ?A = "AStarPlayer_problem three_world [East, West]"
  let ?I = "IDPlayer_problem line_world [East, West]"
  let ?g3 = "\<lparr>current_location = (0, 0), remaining_bananas = PyList []\<rparr>"
  let ?g4 = "\<lparr>current_location = (3, 0), remaining_bananas = PyList []\<rparr>"
  let ?r3 = "\<lparr>sequence_actions = [East, West, West], total_reward = Finite (- 17)\<rparr>"
  let ?r4 = "\<lparr>sequence_actions = [East, East, East], total_reward = Finite 7\<rparr>"
  have u: "replay ?U (State (state (initial_node ?U))) [East, West, West] = Inr (State ?g3)"
    by (rule three_replay)
       (simp_all add: UCPlayer_problem_def HungryMonkeyProblem_init_def three_world_def)
  have a: "replay ?A (State (state (initial_node ?A))) [East, West, West] = Inr (State ?g3)"
    by (rule three_replay)
       (simp_all add: AStarPlayer_problem_def HungryMonkeyProblem_init_def three_world_def)
  have i: "replay ?I (State (state (initial_node ?I))) [East, East, East] = Inr (State ?g4)"
    by (rule line_replay)
       (simp_all add: IDPlayer_problem_def HungryMonkeyProblem_init_def line_world_def)
  have su: "0 \<le> step_cost ?U" by (simp add: UCPlayer_problem_def HungryMonkeyProblem_init_def)
  have sa: "0 \<le> step_cost ?A"
    by (simp add: AStarPlayer_problem_def HungryMonkeyProblem_init_def)
  have fi: "int (length [East, East, East]) < free_cells ?I"
    by (simp add: free_cells_def IDPlayer_problem_def HungryMonkeyProblem_init_def
          line_world_def)
  have g: "is_goal_state ?g3" "is_goal_state ?g4" by (simp_all add: is_goal_state_def)
  from search_returns_path_to_goal [of ?U 0 ?r3 7 new_player _ "[East, West, West]" ?g3]
       search_returns_path_to_goal [of ?A 0 ?r3 4 new_player _ "[East, West, West]" ?g3]
       search_returns_path_to_goal [of ?I 0 ?r4 0 new_player _ "[East, East, East]" ?g4]
       three_ucs_run three_astar_run line_ids_run u a i su sa fi g
  show ?thesis by simp
qed

end
